theory Spec2Isabelle
  imports Main "HOL-Library.Word"
begin

unbundle bit_operations_syntax

section \<open>Memory, machine types and the heap-grow collaborator\<close>

text \<open>
  The allocator of \<^verbatim>\<open>mm.c\<close> works on a flat, byte-addressed memory through raw
  pointers. Pointers, \<^verbatim>\<open>size_t\<close> values and \<^verbatim>\<open>char *\<close> arithmetic are 64-bit words;
  \<^verbatim>\<open>uint32_t\<close> and \<^verbatim>\<open>int\<close> values are 32-bit words (read signed where C reads them
  signed). A 32-bit tag is stored in four bytes and a link pointer in eight bytes, least
  significant byte first. Memory is total: an access outside the managed region, which is
  undefined in C, reads or writes the same flat memory here.
\<close>

type_synonym addr = "64 word"
type_synonym u32 = "32 word"
type_synonym byte = "8 word"

record heap =
  mem :: "addr \<Rightarrow> byte"
  mem_start_brk :: addr
  mem_brk :: addr
  mem_max_addr :: addr
  heap_listp :: addr
  list_root :: addr

definition NULL :: addr where
  "NULL = 0"

definition WSIZE :: "'a::len word" where
  "WSIZE = 4"

definition DSIZE :: "'a::len word" where
  "DSIZE = 8"

definition CHUNKSIZE :: "'a::len word" where
  "CHUNKSIZE = push_bit 12 1"

definition OVERHEAD :: "'a::len word" where
  "OVERHEAD = 8"

definition ALIGNMENT :: "'a::len word" where
  "ALIGNMENT = 8"

definition HEAP_SIZE :: "'a::len word" where
  "HEAP_SIZE = 24"

text \<open>The source's \<^verbatim>\<open>MAX\<close>, on C \<^verbatim>\<open>int\<close>s (compared signed).\<close>

definition MAX_int :: "u32 \<Rightarrow> u32 \<Rightarrow> u32" where
  "MAX_int x y = (if y <s x then x else y)"

definition PACK :: "u32 \<Rightarrow> u32 \<Rightarrow> u32" where
  "PACK sz alloc = sz OR (alloc AND 1)"

definition rd32 :: "(addr \<Rightarrow> byte) \<Rightarrow> addr \<Rightarrow> u32" where
  "rd32 m p = ucast (m p) OR push_bit 8 (ucast (m (p + 1)))
     OR push_bit 16 (ucast (m (p + 2))) OR push_bit 24 (ucast (m (p + 3)))"

definition wr32 :: "addr \<Rightarrow> u32 \<Rightarrow> (addr \<Rightarrow> byte) \<Rightarrow> (addr \<Rightarrow> byte)" where
  "wr32 p v m = m(p := ucast v, p + 1 := ucast (drop_bit 8 v),
     p + 2 := ucast (drop_bit 16 v), p + 3 := ucast (drop_bit 24 v))"

definition rd64 :: "(addr \<Rightarrow> byte) \<Rightarrow> addr \<Rightarrow> addr" where
  "rd64 m p = ucast (rd32 m p) OR push_bit 32 (ucast (rd32 m (p + 4)))"

definition wr64 :: "addr \<Rightarrow> addr \<Rightarrow> (addr \<Rightarrow> byte) \<Rightarrow> (addr \<Rightarrow> byte)" where
  "wr64 p v m = wr32 (p + 4) (ucast (drop_bit 32 v)) (wr32 p (ucast v) m)"

definition GET :: "heap \<Rightarrow> addr \<Rightarrow> u32" where
  "GET s p = rd32 (mem s) p"

definition PUT :: "addr \<Rightarrow> u32 \<Rightarrow> heap \<Rightarrow> heap" where
  "PUT p val s = s\<lparr>mem := wr32 p val (mem s)\<rparr>"

definition GET_SIZE :: "heap \<Rightarrow> addr \<Rightarrow> u32" where
  "GET_SIZE s p = GET s p AND NOT 7"

definition GET_ALLOC :: "heap \<Rightarrow> addr \<Rightarrow> u32" where
  "GET_ALLOC s p = GET s p AND 1"

definition HDRP :: "addr \<Rightarrow> addr" where
  "HDRP bp = bp - WSIZE"

definition FTRP :: "heap \<Rightarrow> addr \<Rightarrow> addr" where
  "FTRP s bp = bp + ucast (GET_SIZE s (HDRP bp)) - DSIZE"

definition NEXT_BLKP :: "heap \<Rightarrow> addr \<Rightarrow> addr" where
  "NEXT_BLKP s bp = bp + ucast (GET_SIZE s (bp - WSIZE))"

definition PREV_BLKP :: "heap \<Rightarrow> addr \<Rightarrow> addr" where
  "PREV_BLKP s bp = bp - ucast (GET_SIZE s (bp - DSIZE))"

definition ALIGN :: "addr \<Rightarrow> addr" where
  "ALIGN p = (p + (ALIGNMENT - 1)) AND NOT 7"

text \<open>The link macros are lvalues: each has a read and a write form.\<close>

definition PRED :: "heap \<Rightarrow> addr \<Rightarrow> addr" where
  "PRED s bp = rd64 (mem s) (bp + ALIGNMENT)"

definition SUCC :: "heap \<Rightarrow> addr \<Rightarrow> addr" where
  "SUCC s bp = rd64 (mem s) bp"

definition FORWARD :: "heap \<Rightarrow> addr \<Rightarrow> addr" where
  "FORWARD s bp = rd64 (mem s) (bp + ALIGNMENT)"

definition BACK :: "heap \<Rightarrow> addr \<Rightarrow> addr" where
  "BACK s bp = rd64 (mem s) bp"

definition set_FORWARD :: "addr \<Rightarrow> addr \<Rightarrow> heap \<Rightarrow> heap" where
  "set_FORWARD bp v s = s\<lparr>mem := wr64 (bp + ALIGNMENT) v (mem s)\<rparr>"

definition set_BACK :: "addr \<Rightarrow> addr \<Rightarrow> heap \<Rightarrow> heap" where
  "set_BACK bp v s = s\<lparr>mem := wr64 bp v (mem s)\<rparr>"

definition memcpy :: "addr \<Rightarrow> addr \<Rightarrow> addr \<Rightarrow> heap \<Rightarrow> heap" where
  "memcpy dst src n s =
     s\<lparr>mem := (\<lambda>a. if a - dst < n then mem s (src + (a - dst)) else mem s a)\<rparr>"

text \<open>
  Modelled from the spec: the heap-grow collaborator \<^verbatim>\<open>mem_sbrk\<close> of \<^verbatim>\<open>memlib.h\<close>,
  whose code is not part of \<^verbatim>\<open>mm.c\<close>. It "extends the managed region by exactly
  n_bytes contiguous, newly-addressable bytes immediately following the previous end, or
  signals failure if unavailable". The failure sentinel is the all-ones pointer that
  \<^verbatim>\<open>extend_heap\<close> compares against; on failure the region is left as it was.
\<close>

definition mem_sbrk :: "addr \<Rightarrow> heap \<Rightarrow> addr \<times> heap" where
  "mem_sbrk incr s =
     (if unat (mem_brk s) + unat incr \<le> unat (mem_max_addr s)
      then (mem_brk s, s\<lparr>mem_brk := mem_brk s + incr\<rparr>)
      else (- 1, s))"

section \<open>The explicit free list\<close>

definition put_on_heap :: "addr \<Rightarrow> addr \<Rightarrow> u32 \<Rightarrow> heap \<Rightarrow> heap" where
  "put_on_heap bp sz bool s =
     (let s1 = PUT (HDRP bp) (PACK (ucast sz) bool) s
      in PUT (FTRP s1 bp) (PACK (ucast sz) bool) s1)"

definition add_node :: "addr \<Rightarrow> heap \<Rightarrow> heap" where
  "add_node bp s =
     (let head = list_root s in
      if list_root s = NULL then
        set_FORWARD bp NULL (set_BACK bp NULL (s\<lparr>list_root := bp\<rparr>))
      else
        (set_BACK head bp (set_BACK bp NULL (set_FORWARD bp head s)))\<lparr>list_root := bp\<rparr>)"

definition delete_node :: "addr \<Rightarrow> heap \<Rightarrow> heap" where
  "delete_node bp s =
     (let temp_back = BACK s bp; temp_forward = FORWARD s bp in
      if BACK s bp = NULL then
        (let s1 = s\<lparr>list_root := FORWARD s bp\<rparr> in
         if temp_forward \<noteq> NULL then set_BACK temp_forward (BACK s1 bp) s1 else s1)
      else
        (let s1 = set_FORWARD temp_back (FORWARD s bp) s in
         if temp_forward \<noteq> NULL then set_BACK temp_forward (BACK s1 bp) s1 else s1))"

section \<open>Coalescing, heap extension and initialisation\<close>

definition coalesce :: "addr \<Rightarrow> heap \<Rightarrow> addr \<times> heap" where
  "coalesce bp s =
     (let prevBlock = PREV_BLKP s bp;
          prev_alloc = (GET_ALLOC s (FTRP s prevBlock) \<noteq> 0 \<or> prevBlock = bp);
          next_alloc = (GET_ALLOC s (HDRP (NEXT_BLKP s bp)) \<noteq> 0);
          sz = (ucast (GET_SIZE s (HDRP bp)) :: addr);
          (flag, t) =
            (if prev_alloc \<and> \<not> next_alloc then
               (let size1 = sz + ucast (GET_SIZE s (HDRP (NEXT_BLKP s bp)));
                    s1 = delete_node (NEXT_BLKP s bp) s;
                    s2 = PUT (HDRP bp) (PACK (ucast size1) 0) s1;
                    s3 = PUT (FTRP s2 bp) (PACK (ucast size1) 0) s2
                in (False, s3))
             else if \<not> prev_alloc \<and> next_alloc then
               (let size1 = sz + ucast (GET_SIZE s (HDRP (PREV_BLKP s bp)));
                    s1 = PUT (HDRP (PREV_BLKP s bp)) (PACK (ucast size1) 0) s;
                    s2 = PUT (FTRP s1 (PREV_BLKP s1 bp)) (PACK (ucast size1) 0) s1;
                    s3 = delete_node (PREV_BLKP s2 bp) s2
                in (True, s3))
             else if \<not> prev_alloc \<and> \<not> next_alloc then
               (let size1 = sz + ucast (GET_SIZE s (HDRP (PREV_BLKP s bp))
                                          + GET_SIZE s (HDRP (NEXT_BLKP s bp)));
                    s1 = delete_node (PREV_BLKP s bp) s;
                    s2 = delete_node (NEXT_BLKP s1 bp) s1;
                    s3 = PUT (HDRP (PREV_BLKP s2 bp)) (PACK (ucast size1) 0) s2;
                    s4 = PUT (FTRP s3 (PREV_BLKP s3 bp)) (PACK (ucast size1) 0) s3
                in (True, s4))
             else (False, s))
      in if flag then (let bp' = PREV_BLKP t bp in (bp', add_node bp' t))
         else (bp, add_node bp t))"

definition extend_heap :: "u32 \<Rightarrow> heap \<Rightarrow> addr \<times> heap" where
  "extend_heap words s =
     (let sz = (ucast (if words mod 2 \<noteq> 0 then (words + 1) * WSIZE else words * WSIZE) :: addr);
          (bp, s1) = mem_sbrk sz s
      in if bp = - 1 then (NULL, s1)
         else
           (let s2 = PUT (HDRP bp) (PACK (ucast sz) 0) s1;
                s3 = PUT (FTRP s2 bp) (PACK (ucast sz) 0) s2;
                s4 = PUT (HDRP (NEXT_BLKP s3 bp)) (PACK 0 1) s3
            in coalesce bp s4))"

text \<open>\<^verbatim>\<open>mm_init\<close> returns the C \<^verbatim>\<open>int\<close> 0 on success and -1 on failure.\<close>

definition mm_init :: "heap \<Rightarrow> u32 \<times> heap" where
  "mm_init s =
     (let (p, s0) = mem_sbrk (2 * HEAP_SIZE) s;
          s1 = s0\<lparr>heap_listp := p\<rparr>
      in if heap_listp s1 = NULL then (- 1, s1)
         else
           (let s2 = PUT (heap_listp s1) 0 s1;
                s3 = PUT (heap_listp s2 + WSIZE) (PACK HEAP_SIZE 1) s2;
                s4 = PUT (heap_listp s3 + HEAP_SIZE) (PACK HEAP_SIZE 1) s3;
                s5 = PUT (heap_listp s4 + WSIZE + HEAP_SIZE) (PACK 0 1) s4;
                s6 = s5\<lparr>heap_listp := heap_listp s5 + DSIZE\<rparr>;
                s7 = PUT (heap_listp s6 + DSIZE) 0 s6;
                s8 = PUT (heap_listp s7 + DSIZE + WSIZE) 0 s7;
                s9 = s8\<lparr>list_root := heap_listp s8\<rparr>;
                (bp, s10) = extend_heap (CHUNKSIZE div DSIZE) s9
            in if bp = NULL then (- 1, s10) else (0, s10)))"

section \<open>Searching, placing, allocating, freeing and resizing\<close>

text \<open>
  The search loop of \<^verbatim>\<open>find_fit\<close> follows links read from memory and need not end
  (a cyclic list of free blocks that are all too small): not returning is \<open>None\<close>.
\<close>

partial_function (option) find_fit_loop :: "heap \<Rightarrow> u32 \<Rightarrow> addr \<Rightarrow> addr option" where
  "find_fit_loop s asize bp =
     (if GET_ALLOC s (HDRP bp) = 0 then
        (if asize \<le> GET_SIZE s (HDRP bp) then Some bp
         else find_fit_loop s asize (PRED s bp))
      else Some NULL)"

declare find_fit_loop.simps [code]

definition find_fit :: "u32 \<Rightarrow> heap \<Rightarrow> addr option" where
  "find_fit asize s = find_fit_loop s asize (list_root s)"

definition place :: "addr \<Rightarrow> u32 \<Rightarrow> heap \<Rightarrow> heap" where
  "place bp asize s =
     (let csize = (ucast (GET_SIZE s (HDRP bp)) :: addr) in
      if HEAP_SIZE \<le> csize - ucast asize then
        (let s1 = PUT (HDRP bp) (PACK asize 1) s;
             s2 = PUT (FTRP s1 bp) (PACK asize 1) s1;
             s3 = delete_node bp s2;
             bp' = NEXT_BLKP s3 bp;
             s4 = PUT (HDRP bp') (PACK (ucast (csize - ucast asize)) 0) s3;
             s5 = PUT (FTRP s4 bp') (PACK (ucast (csize - ucast asize)) 0) s4
         in snd (coalesce bp' s5))
      else
        (let s1 = PUT (HDRP bp) (PACK (ucast csize) 1) s;
             s2 = PUT (FTRP s1 bp) (PACK (ucast csize) 1) s1
         in delete_node bp s2))"

definition mm_free :: "addr \<Rightarrow> heap \<Rightarrow> heap" where
  "mm_free bp s =
     (let sz = (ucast (GET_SIZE s (HDRP bp)) :: addr);
          s1 = PUT (HDRP bp) (PACK (ucast sz) 0) s;
          s2 = PUT (FTRP s1 bp) (PACK (ucast sz) 0) s1
      in snd (coalesce bp s2))"

definition mm_malloc :: "u32 \<Rightarrow> heap \<Rightarrow> (addr \<times> heap) option" where
  "mm_malloc sz s =
     (if sz \<le> 0 then Some (NULL, s)
      else
        (let asize = (if ALIGN (ucast sz) + DSIZE < HEAP_SIZE then HEAP_SIZE
                      else ALIGN (ucast sz) + DSIZE :: addr)
         in case find_fit (ucast asize) s of
              None \<Rightarrow> None
            | Some bp \<Rightarrow>
                if bp \<noteq> NULL then Some (bp, place bp (ucast asize) s)
                else
                  (let extendsize = (scast (MAX_int (ucast asize) CHUNKSIZE) :: addr);
                       (bp, s1) = extend_heap (ucast (extendsize div WSIZE)) s
                   in if bp = NULL then Some (NULL, s1)
                      else Some (bp, place bp (ucast asize) s1))))"

definition mm_realloc :: "addr \<Rightarrow> u32 \<Rightarrow> heap \<Rightarrow> (addr \<times> heap) option" where
  "mm_realloc bp sz s =
     (if bp = NULL then
        (case mm_malloc sz s of None \<Rightarrow> None | Some (r, s1) \<Rightarrow> Some (NULL, s1))
      else if sz = 0 then Some (NULL, mm_free bp s)
      else if 0 < sz then
        (let oldsize = (ucast (GET_SIZE s (HDRP bp)) :: addr);
             newsize = (ucast (sz + HEAP_SIZE) :: addr)
         in if newsize \<le> oldsize then Some (bp, s)
            else
              (let next_alloc = (GET_ALLOC s (HDRP (NEXT_BLKP s bp)) \<noteq> 0);
                   csize = oldsize + ucast (GET_SIZE s (HDRP (NEXT_BLKP s bp)))
               in if \<not> next_alloc \<and> newsize \<le> csize then
                    Some (bp, put_on_heap bp csize 1 (delete_node (NEXT_BLKP s bp) s))
                  else
                    (case mm_malloc (ucast newsize) s of
                       None \<Rightarrow> None
                     | Some (new_ptr, s1) \<Rightarrow>
                         (let s2 = place new_ptr (ucast newsize) s1;
                              s3 = memcpy new_ptr bp newsize s2;
                              s4 = mm_free bp s3
                          in Some (new_ptr, s4)))))
      else Some (NULL, s))"

section \<open>Observing the heap\<close>

text \<open>
  The claims speak of the blocks of the heap and of the members of the registry. Both are
  read off the memory the way the code itself walks it. The blocks are those met from
  the first block pointer (the address the first \<^verbatim>\<open>extend_heap\<close> obtains, 48 bytes after
  the start of the arena) by stepping with \<^verbatim>\<open>NEXT_BLKP\<close> up to a header of size 0, each
  with its size and allocated bit. The registry is the list met from \<^verbatim>\<open>list_root\<close> by
  following the forward links up to the null pointer. A walk that does not end is
  \<open>None\<close>.
\<close>

definition first_blkp :: "heap \<Rightarrow> addr" where
  "first_blkp s = mem_start_brk s + 2 * HEAP_SIZE"

partial_function (option) walk_blocks :: "heap \<Rightarrow> addr \<Rightarrow> (addr \<times> u32 \<times> bool) list option" where
  "walk_blocks s bp =
     (if GET_SIZE s (HDRP bp) = 0 then Some []
      else Option.bind (walk_blocks s (NEXT_BLKP s bp))
             (\<lambda>r. Some ((bp, GET_SIZE s (HDRP bp), GET_ALLOC s (HDRP bp) \<noteq> 0) # r)))"

definition heap_blocks :: "heap \<Rightarrow> (addr \<times> u32 \<times> bool) list option" where
  "heap_blocks s = walk_blocks s (first_blkp s)"

partial_function (option) registry_from :: "heap \<Rightarrow> addr \<Rightarrow> addr list option" where
  "registry_from s bp =
     (if bp = NULL then Some []
      else Option.bind (registry_from s (FORWARD s bp)) (\<lambda>r. Some (bp # r)))"

definition registry :: "heap \<Rightarrow> addr list option" where
  "registry s = registry_from s (list_root s)"

declare walk_blocks.simps [code]
declare registry_from.simps [code]

text \<open>
  The part of the list that \<^verbatim>\<open>find_fit\<close> visits: \<open>fwd_chain s c fl e\<close> says that
  following \<^verbatim>\<open>PRED\<close> from \<open>c\<close> meets the blocks \<open>fl\<close> in this order and then \<open>e\<close>.
\<close>

fun fwd_chain :: "heap \<Rightarrow> addr \<Rightarrow> addr list \<Rightarrow> addr \<Rightarrow> bool" where
  "fwd_chain s c [] e = (c = e)"
| "fwd_chain s c (x # xs) e = (c = x \<and> fwd_chain s (PRED s x) xs e)"

section \<open>Reading and writing memory\<close>

text \<open>
  Two four-byte cells are \<open>apart4\<close> when their byte ranges do not meet (the
  subtraction wraps, so this is disjointness modulo \<open>2 ^ 64\<close>).
\<close>

definition apart4 :: "addr \<Rightarrow> addr \<Rightarrow> bool" where
  "apart4 p q = (4 \<le> q - p \<and> 4 \<le> p - q)"

lemma apart4_sym: "apart4 p q = apart4 q p"
  by (auto simp: apart4_def)

lemma apart4_neq:
  assumes "apart4 p q"
  shows "p \<noteq> q" "p \<noteq> q + 1" "p \<noteq> q + 2" "p \<noteq> q + 3"
    "p + 1 \<noteq> q" "p + 1 \<noteq> q + 1" "p + 1 \<noteq> q + 2" "p + 1 \<noteq> q + 3"
    "p + 2 \<noteq> q" "p + 2 \<noteq> q + 1" "p + 2 \<noteq> q + 2" "p + 2 \<noteq> q + 3"
    "p + 3 \<noteq> q" "p + 3 \<noteq> q + 1" "p + 3 \<noteq> q + 2" "p + 3 \<noteq> q + 3"
proof -
  have n1: "\<not> 4 \<le> (1::addr)" by (simp add: word_le_nat_alt)
  show "p \<noteq> q" "p \<noteq> q + 1" "p \<noteq> q + 2" "p \<noteq> q + 3"
    "p + 1 \<noteq> q" "p + 1 \<noteq> q + 1" "p + 1 \<noteq> q + 2" "p + 1 \<noteq> q + 3"
    "p + 2 \<noteq> q" "p + 2 \<noteq> q + 1" "p + 2 \<noteq> q + 2" "p + 2 \<noteq> q + 3"
    "p + 3 \<noteq> q" "p + 3 \<noteq> q + 1" "p + 3 \<noteq> q + 2" "p + 3 \<noteq> q + 3"
    using assms n1 unfolding apart4_def by auto
qed

lemma cat4: "(ucast (ucast v :: byte) OR push_bit 8 (ucast (ucast (drop_bit 8 v) :: byte)) OR push_bit 16 (ucast (ucast (drop_bit 16 v) :: byte)) OR push_bit 24 (ucast (ucast (drop_bit 24 v) :: byte))) = (v::u32)"
proof (rule bit_word_eqI)
  fix n assume n: "n < LENGTH(32)"
  let ?w = "ucast (ucast v :: byte) OR push_bit 8 (ucast (ucast (drop_bit 8 v) :: byte)) OR push_bit 16 (ucast (ucast (drop_bit 16 v) :: byte)) OR push_bit 24 (ucast (ucast (drop_bit 24 v) :: byte)) :: u32"
  consider "n < 8" | "8 \<le> n \<and> n < 16" | "16 \<le> n \<and> n < 24" | "24 \<le> n" by arith
  then show "bit ?w n = bit v n"
  proof cases
    case 1 then show ?thesis using n by (simp add: bit_simps)
  next
    case 2 then show ?thesis using n by (auto simp add: bit_simps)
  next
    case 3 then show ?thesis using n by (auto simp add: bit_simps)
  next
    case 4 then show ?thesis using n by (auto simp add: bit_simps)
  qed
qed

lemma cat8: "(ucast (ucast v :: u32) OR push_bit 32 (ucast (ucast (drop_bit 32 v) :: u32))) = (v::addr)"
proof (rule bit_word_eqI)
  fix n assume n: "n < LENGTH(64)"
  consider "n < 32" | "32 \<le> n" by arith
  then show "bit (ucast (ucast v :: u32) OR push_bit 32 (ucast (ucast (drop_bit 32 v) :: u32)) :: addr) n = bit v n"
  proof cases
    case 1 then show ?thesis using n by (simp add: bit_simps)
  next
    case 2 then show ?thesis using n by (auto simp add: bit_simps)
  qed
qed

lemma distinct4: "p \<noteq> p + (1::addr)" "p \<noteq> p + (2::addr)" "p \<noteq> p + (3::addr)" 
  "p + 1 \<noteq> p + (2::addr)" "p + 1 \<noteq> p + (3::addr)" "p + 2 \<noteq> p + (3::addr)"
  "p + 1 \<noteq> (p::addr)" "p + 2 \<noteq> (p::addr)" "p + 3 \<noteq> (p::addr)"
  "p + 2 \<noteq> p + (1::addr)" "p + 3 \<noteq> p + (1::addr)" "p + 3 \<noteq> p + (2::addr)"
  by simp_all

lemma rd32_wr32_same: "rd32 (wr32 p v m) p = v"
  unfolding rd32_def wr32_def by (simp add: cat4)

lemma rd32_wr32_apart: "apart4 p q \<Longrightarrow> rd32 (wr32 p v m) q = rd32 m q"
  unfolding rd32_def wr32_def using apart4_neq[of q p] by (simp add: apart4_sym)

lemma wr32_wr32_same: "wr32 p v (wr32 p w m) = wr32 p v m"
  unfolding wr32_def by (rule ext) simp

lemma wr32_comm: "apart4 p q \<Longrightarrow> wr32 p v (wr32 q w m) = wr32 q w (wr32 p v m)"
  unfolding wr32_def using apart4_neq[of p q] by (intro ext) (simp)

lemma apart4_4: "apart4 p (p + 4)" "apart4 (p + 4) p"
  by (simp_all add: apart4_def)

lemma rd64_wr64_same: "rd64 (wr64 p v m) p = v"
  unfolding rd64_def wr64_def by (simp add: rd32_wr32_same rd32_wr32_apart apart4_4 cat8)

lemma unat_of_nat64: "x < 2 ^ 64 \<Longrightarrow> unat (of_nat x :: addr) = x"
  by (simp add: unat_of_nat)

lemma apart4_of_nat:
  assumes "x + 4 \<le> y \<or> y + 4 \<le> x" "x + 4 \<le> 2 ^ 64" "y + 4 \<le> 2 ^ 64"
  shows "apart4 (of_nat x) (of_nat y)"
proof -
  have x: "unat (of_nat x :: addr) = x" and y: "unat (of_nat y :: addr) = y"
    using assms by (simp_all add: unat_of_nat64)
  show ?thesis
    unfolding apart4_def word_le_nat_alt
    using assms by (auto simp: unat_sub_if_size x y word_size)
qed


section \<open>Running the allocator on a concrete heap\<close>

text \<open>
  A concrete memory is written as the list of the 32-bit cells stored in an all-zero
  memory, keyed by address: \<open>wmem\<close> is that memory, \<open>lk\<close> reads a cell and
  \<open>upd\<close> stores one, provided the cell is equal to or apart from every cell of the
  list (\<open>okw\<close>). These equations let the simplifier run the code on a concrete heap.
\<close>

fun wmem :: "(nat \<times> u32) list \<Rightarrow> addr \<Rightarrow> byte" where
  "wmem [] = (\<lambda>_. 0)"
| "wmem ((a, v) # xs) = wr32 (of_nat a) v (wmem xs)"

fun lk :: "(nat \<times> u32) list \<Rightarrow> nat \<Rightarrow> u32" where
  "lk [] p = 0"
| "lk ((a, v) # xs) p = (if a = p then v else lk xs p)"

fun upd :: "nat \<Rightarrow> u32 \<Rightarrow> (nat \<times> u32) list \<Rightarrow> (nat \<times> u32) list" where
  "upd p v [] = [(p, v)]"
| "upd p v ((a, w) # xs) = (if a = p then (p, v) # xs else (a, w) # upd p v xs)"

fun okw :: "nat \<Rightarrow> (nat \<times> u32) list \<Rightarrow> bool" where
  "okw p [] = (p \<le> 18446744073709551612)"
| "okw p ((a, w) # xs) = ((a = p \<or> a + 4 \<le> p \<or> p + 4 \<le> a) \<and> a \<le> 18446744073709551612 \<and> okw p xs)"

lemma rd32_zero: "rd32 (\<lambda>_. 0) p = 0"
  by (simp add: rd32_def)

lemma okw_bound: "okw p xs \<Longrightarrow> p + 4 \<le> 2 ^ 64"
  by (induction xs) auto

lemma rd32_wmem_nat: "okw p xs \<Longrightarrow> rd32 (wmem xs) (of_nat p) = lk xs p"
proof (induction xs)
  case Nil
  then show ?case by (simp add: rd32_zero)
next
  case (Cons e xs)
  obtain a w where e: "e = (a, w)" by (cases e)
  from Cons.prems have b: "p + 4 \<le> 2 ^ 64" by (rule okw_bound)
  show ?case
  proof (cases "a = p")
    case True
    then show ?thesis by (simp add: e rd32_wr32_same)
  next
    case False
    with Cons.prems e b have "apart4 (of_nat a) (of_nat p)"
      by (intro apart4_of_nat) auto
    with False Cons show ?thesis by (simp add: e rd32_wr32_apart)
  qed
qed

lemma wr32_wmem_nat: "okw p xs \<Longrightarrow> wr32 (of_nat p) v (wmem xs) = wmem (upd p v xs)"
proof (induction xs)
  case Nil
  then show ?case by simp
next
  case (Cons e xs)
  obtain a w where e: "e = (a, w)" by (cases e)
  from Cons.prems have b: "p + 4 \<le> 2 ^ 64" by (rule okw_bound)
  show ?case
  proof (cases "a = p")
    case True
    then show ?thesis by (simp add: e wr32_wr32_same)
  next
    case False
    with Cons.prems e b have ap: "apart4 (of_nat a) (of_nat p)" and ok: "okw p xs"
      by (auto intro!: apart4_of_nat)
    have "wr32 (of_nat p) v (wr32 (of_nat a) w (wmem xs)) = wr32 (of_nat a) w (wr32 (of_nat p) v (wmem xs))"
      using ap by (simp add: wr32_comm apart4_sym)
    with False Cons.IH[OF ok] show ?thesis by (simp add: e)
  qed
qed

lemma rd32_wmem: "okw (unat p) xs \<Longrightarrow> rd32 (wmem xs) p = lk xs (unat p)"
  using rd32_wmem_nat[of "unat p" xs] by simp

lemma wr32_wmem: "okw (unat p) xs \<Longrightarrow> wr32 p v (wmem xs) = wmem (upd (unat p) v xs)"
  using wr32_wmem_nat[of "unat p" xs v] by simp

lemma wmem_Nil: "(\<lambda>_. 0) = wmem []" by simp
declare wmem.simps [simp del]


text \<open>A fresh arena of 1 MiB at address \<open>0x1000\<close>, all zero, before \<^verbatim>\<open>mm_init\<close>.\<close>

definition fresh_heap :: heap where
  "fresh_heap = \<lparr>mem = (\<lambda>_. 0), mem_start_brk = 0x1000, mem_brk = 0x1000,
     mem_max_addr = 0x101000, heap_listp = 0, list_root = 0\<rparr>"

lemmas const_defs = NULL_def WSIZE_def DSIZE_def CHUNKSIZE_def OVERHEAD_def ALIGNMENT_def
  HEAP_SIZE_def

lemmas prim_defs = GET_def PUT_def GET_SIZE_def GET_ALLOC_def FTRP_def NEXT_BLKP_def
  PREV_BLKP_def PRED_def FORWARD_def BACK_def set_FORWARD_def set_BACK_def mem_sbrk_def
  put_on_heap_def

lemmas op_defs = mm_init_def extend_heap_def coalesce_def add_node_def delete_node_def
  place_def mm_malloc_def mm_free_def mm_realloc_def find_fit_def find_fit_loop.simps

text \<open>The defining equations, restricted to a heap given by its six fields.\<close>

lemmas prim_evals = prim_defs [where s = "\<lparr>mem = m, mem_start_brk = a, mem_brk = b,
  mem_max_addr = c, heap_listp = d, list_root = e\<rparr>" for m a b c d e]

lemmas op_evals = op_defs [where s = "\<lparr>mem = m, mem_start_brk = a, mem_brk = b,
  mem_max_addr = c, heap_listp = d, list_root = e\<rparr>" for m a b c d e]

lemmas evals = op_evals const_defs prim_evals MAX_int_def PACK_def HDRP_def ALIGN_def
  rd64_def wr64_def rd32_wmem wr32_wmem wmem_Nil

text \<open>The heaps of a short run: after \<^verbatim>\<open>mm_init\<close> on the fresh arena (\<open>heap1\<close>), after
  a following \<^verbatim>\<open>mm_malloc(1)\<close>, which returns \<open>0x1030\<close> (\<open>heap2\<close>), and after a following
  \<^verbatim>\<open>mm_realloc(0x1030, 16)\<close> (\<open>heap3\<close>).\<close>

definition heap1 :: heap where
  "heap1 = \<lparr>mem = wmem
       [(4096, 0), (4100, 25), (4120, 25), (4124, 1), (4112, 0), (4116, 0),
        (4140, 2048), (6184, 2048), (6188, 1), (4152, 4104), (4156, 0),
        (4144, 0), (4148, 0), (4104, 4144), (4108, 0)],
     mem_start_brk = 4096, mem_brk = 6192, mem_max_addr = 1052672,
     heap_listp = 4104, list_root = 4144\<rparr>"

definition heap2 :: heap where
  "heap2 = \<lparr>mem = wmem
       [(4096, 0), (4100, 25), (4120, 25), (4124, 1), (4112, 0), (4116, 0),
        (4140, 25), (6184, 2024), (6188, 1), (4152, 4104), (4156, 0),
        (4144, 0), (4148, 0), (4104, 4168), (4108, 0), (4160, 25),
        (4164, 2024), (4176, 4104), (4180, 0), (4168, 0), (4172, 0)],
     mem_start_brk = 4096, mem_brk = 6192, mem_max_addr = 1052672,
     heap_listp = 4104, list_root = 4168\<rparr>"

definition heap3 :: heap where
  "heap3 = \<lparr>mem = wmem
       [(4096, 0), (4100, 25), (4120, 25), (4124, 1), (4112, 0), (4116, 0),
        (4140, 2049), (6184, 2049), (6188, 1), (4152, 4104), (4156, 0),
        (4144, 0), (4148, 0), (4104, 0), (4108, 0), (4160, 25), (4164, 2024),
        (4176, 4104), (4180, 0), (4168, 0), (4172, 0)],
     mem_start_brk = 4096, mem_brk = 6192, mem_max_addr = 1052672,
     heap_listp = 4104, list_root = 4104\<rparr>"

lemma init_fresh: "mm_init fresh_heap = (0, heap1)"
  by (simp cong: let_weak_cong add: fresh_heap_def heap1_def evals)

lemma malloc1_heap1: "mm_malloc 1 heap1 = Some (0x1030, heap2)"
  by (simp cong: let_weak_cong add: heap1_def heap2_def evals)

lemma realloc16_heap2: "mm_realloc 0x1030 16 heap2 = Some (0x1030, heap3)"
  by (simp cong: let_weak_cong add: heap2_def heap3_def evals)

lemma rd32_bytes:
  "ucast (rd32 m p) = m p"
  "ucast (drop_bit 8 (rd32 m p)) = m (p + 1)"
  "ucast (drop_bit 16 (rd32 m p)) = m (p + 2)"
  "ucast (drop_bit 24 (rd32 m p)) = m (p + 3)"
  unfolding rd32_def
  by (rule bit_word_eqI; auto simp: bit_simps dest: bit_imp_le_length)+

lemma memcpy_step:
  fixes x :: addr
  assumes k: "unat x + 4 < 2 ^ 64"
  shows "(\<lambda>a. if a - dst < x + 4 then m (src + (a - dst)) else m a) =
     wr32 (dst + x) (rd32 m (src + x))
       (\<lambda>a. if a - dst < x then m (src + (a - dst)) else (m a :: byte))"
proof (rule ext)
  fix a :: addr
  define d where "d = a - dst"
  define n where "n = unat d"
  have ux4: "unat (x + 4) = unat x + 4" using k by (simp add: unat_word_ariths)
  have lt1: "d < x \<longleftrightarrow> n < unat x" by (simp add: word_less_nat_alt n_def)
  have lt2: "d < x + 4 \<longleftrightarrow> n < unat x + 4"
    by (simp only: word_less_nat_alt ux4 n_def)
  have u1: "unat (x + 1) = unat x + 1" "unat (x + 2) = unat x + 2" "unat (x + 3) = unat x + 3"
    using k by (simp_all add: unat_word_ariths)
  have e0: "a = dst + x \<longleftrightarrow> d = x" by (simp add: d_def diff_eq_eq ac_simps)
  have e1: "a = dst + x + 1 \<longleftrightarrow> d = x + 1" by (simp add: d_def diff_eq_eq ac_simps)
  have e2: "a = dst + x + 2 \<longleftrightarrow> d = x + 2" by (simp add: d_def diff_eq_eq ac_simps)
  have e3: "a = dst + x + 3 \<longleftrightarrow> d = x + 3" by (simp add: d_def diff_eq_eq ac_simps)
  have n0: "d = x \<longleftrightarrow> n = unat x" by (simp add: word_unat_eq_iff n_def)
  have n1: "d = x + 1 \<longleftrightarrow> n = unat x + 1" by (simp add: word_unat_eq_iff u1 n_def)
  have n2: "d = x + 2 \<longleftrightarrow> n = unat x + 2" by (simp add: word_unat_eq_iff u1 n_def)
  have n3: "d = x + 3 \<longleftrightarrow> n = unat x + 3" by (simp add: word_unat_eq_iff u1 n_def)
  have goal: "(if d < x + 4 then m (src + d) else m a) =
     wr32 (dst + x) (rd32 m (src + x)) (\<lambda>a. if a - dst < x then m (src + (a - dst)) else m a) a"
  proof -
    consider "n < unat x" | "n = unat x" | "n = unat x + 1" | "n = unat x + 2"
      | "n = unat x + 3" | "unat x + 4 \<le> n"
      by arith
    then show ?thesis
    proof cases
      case 1
      then show ?thesis unfolding wr32_def lt2
        by (simp add: e0 e1 e2 e3 n0 n1 n2 n3 lt1 d_def[symmetric])
    next
      case 2
      then have D: "d = x" using n0 by simp
      then have A: "a = dst + x" using e0 by simp
      have L: "d < x + 4" using lt2 2 by simp
      show ?thesis unfolding wr32_def using L by (simp add: A D rd32_bytes add.assoc)
    next
      case 3
      then have D: "d = x + 1" using n1 by simp
      then have A: "a = dst + x + 1" using e1 by simp
      have L: "d < x + 4" using lt2 3 by simp
      show ?thesis unfolding wr32_def using L by (simp add: A D rd32_bytes add.assoc)
    next
      case 4
      then have D: "d = x + 2" using n2 by simp
      then have A: "a = dst + x + 2" using e2 by simp
      have L: "d < x + 4" using lt2 4 by simp
      show ?thesis unfolding wr32_def using L by (simp add: A D rd32_bytes add.assoc)
    next
      case 5
      then have D: "d = x + 3" using n3 by simp
      then have A: "a = dst + x + 3" using e3 by simp
      have L: "d < x + 4" using lt2 5 by simp
      show ?thesis unfolding wr32_def using L by (simp add: A D rd32_bytes add.assoc)
    next
      case 6
      then show ?thesis unfolding wr32_def lt2
        by (simp add: e0 e1 e2 e3 n0 n1 n2 n3 lt1 d_def[symmetric])
    qed
  qed
  then show "(if a - dst < x + 4 then m (src + (a - dst)) else m a) =
     wr32 (dst + x) (rd32 m (src + x)) (\<lambda>a. if a - dst < x then m (src + (a - dst)) else m a) a"
    by (simp only: d_def)
qed

lemma memcpy_32:
  "memcpy dst src 32 s = s\<lparr>mem :=
     wr32 (dst + 28) (rd32 (mem s) (src + 28)) (wr32 (dst + 24) (rd32 (mem s) (src + 24))
     (wr32 (dst + 20) (rd32 (mem s) (src + 20)) (wr32 (dst + 16) (rd32 (mem s) (src + 16))
     (wr32 (dst + 12) (rd32 (mem s) (src + 12)) (wr32 (dst + 8) (rd32 (mem s) (src + 8))
     (wr32 (dst + 4) (rd32 (mem s) (src + 4)) (wr32 dst (rd32 (mem s) src) (mem s))))))))\<rparr>"
  unfolding memcpy_def
  using memcpy_step[of 28 dst "mem s" src] memcpy_step[of 24 dst "mem s" src]
    memcpy_step[of 20 dst "mem s" src] memcpy_step[of 16 dst "mem s" src]
    memcpy_step[of 12 dst "mem s" src] memcpy_step[of 8 dst "mem s" src]
    memcpy_step[of 4 dst "mem s" src] memcpy_step[of 0 dst "mem s" src]
  by simp

lemmas memcpy_eval = memcpy_32 [where s = "\<lparr>mem = m, mem_start_brk = a, mem_brk = b,
  mem_max_addr = c, heap_listp = d, list_root = e\<rparr>" for m a b c d e]

lemmas obs_evals = walk_blocks.simps [where s = "\<lparr>mem = m, mem_start_brk = a, mem_brk = b,
  mem_max_addr = c, heap_listp = d, list_root = e\<rparr>" for m a b c d e]
  registry_from.simps [where s = "\<lparr>mem = m, mem_start_brk = a, mem_brk = b,
  mem_max_addr = c, heap_listp = d, list_root = e\<rparr>" for m a b c d e]
  heap_blocks_def registry_def first_blkp_def

text \<open>
  A second run from \<open>heap1\<close>: \<^verbatim>\<open>mm_malloc(48)\<close> returns \<open>0x1030\<close> (\<open>hx\<close>),
  \<^verbatim>\<open>mm_malloc(16)\<close> returns \<open>0x1068\<close> (\<open>hy\<close>), \<^verbatim>\<open>mm_malloc(8)\<close> returns \<open>0x1080\<close>
  (\<open>hz\<close>), \<^verbatim>\<open>mm_free(0x1030)\<close> gives \<open>hfree\<close>, and \<^verbatim>\<open>mm_realloc(0x1068, 8)\<close> returns
  \<open>0x1030\<close> and gives \<open>hre\<close>.
\<close>

definition hx :: heap where
  "hx = \<lparr>mem = wmem
       [(4096, 0), (4100, 25), (4120, 25), (4124, 1), (4112, 0), (4116, 0),
        (4140, 57), (6184, 1992), (6188, 1), (4152, 4104), (4156, 0),
        (4144, 0), (4148, 0), (4104, 4200), (4108, 0), (4192, 57),
        (4196, 1992), (4208, 4104), (4212, 0), (4200, 0), (4204, 0)],
     mem_start_brk = 4096, mem_brk = 6192, mem_max_addr = 1052672,
     heap_listp = 4104, list_root = 4200\<rparr>"

definition hy :: heap where
  "hy = \<lparr>mem = wmem
       [(4096, 0), (4100, 25), (4120, 25), (4124, 1), (4112, 0), (4116, 0),
        (4140, 57), (6184, 1968), (6188, 1), (4152, 4104), (4156, 0),
        (4144, 0), (4148, 0), (4104, 4224), (4108, 0), (4192, 57),
        (4196, 25), (4208, 4104), (4212, 0), (4200, 0), (4204, 0),
        (4216, 25), (4220, 1968), (4232, 4104), (4236, 0), (4224, 0),
        (4228, 0)],
     mem_start_brk = 4096, mem_brk = 6192, mem_max_addr = 1052672,
     heap_listp = 4104, list_root = 4224\<rparr>"

definition hz :: heap where
  "hz = \<lparr>mem = wmem
       [(4096, 0), (4100, 25), (4120, 25), (4124, 1), (4112, 0), (4116, 0),
        (4140, 57), (6184, 1944), (6188, 1), (4152, 4104), (4156, 0),
        (4144, 0), (4148, 0), (4104, 4248), (4108, 0), (4192, 57),
        (4196, 25), (4208, 4104), (4212, 0), (4200, 0), (4204, 0),
        (4216, 25), (4220, 25), (4232, 4104), (4236, 0), (4224, 0),
        (4228, 0), (4240, 25), (4244, 1944), (4256, 4104), (4260, 0),
        (4248, 0), (4252, 0)],
     mem_start_brk = 4096, mem_brk = 6192, mem_max_addr = 1052672,
     heap_listp = 4104, list_root = 4248\<rparr>"

definition hfree :: heap where
  "hfree = \<lparr>mem = wmem
       [(4096, 0), (4100, 25), (4120, 25), (4124, 1), (4112, 0), (4116, 0),
        (4140, 56), (6184, 1944), (6188, 1), (4152, 4248), (4156, 0),
        (4144, 0), (4148, 0), (4104, 4248), (4108, 0), (4192, 56), (4196, 25),
        (4208, 4104), (4212, 0), (4200, 0), (4204, 0), (4216, 25), (4220, 25),
        (4232, 4104), (4236, 0), (4224, 0), (4228, 0), (4240, 25),
        (4244, 1944), (4256, 4104), (4260, 0), (4248, 4144), (4252, 0)],
     mem_start_brk = 4096, mem_brk = 6192, mem_max_addr = 1052672,
     heap_listp = 4104, list_root = 4144\<rparr>"

definition hre :: heap where
  "hre = \<lparr>mem = wmem
       [(4096, 0), (4100, 25), (4120, 25), (4124, 1), (4112, 0), (4116, 0),
        (4140, 33), (6184, 1944), (6188, 1), (4152, 4104), (4156, 0),
        (4144, 0), (4148, 0), (4104, 4248), (4108, 0), (4192, 24),
        (4196, 24), (4208, 4104), (4212, 0), (4200, 0), (4204, 0),
        (4216, 24), (4220, 25), (4232, 4104), (4236, 0), (4224, 0),
        (4228, 0), (4240, 25), (4244, 1944), (4256, 4104), (4260, 0),
        (4248, 4176), (4252, 0), (4168, 0), (4172, 24), (4184, 4248),
        (4188, 0), (4176, 0), (4180, 0), (4160, 25), (4164, 25)],
     mem_start_brk = 4096, mem_brk = 6192, mem_max_addr = 1052672,
     heap_listp = 4104, list_root = 4176\<rparr>"

lemma run_x: "mm_malloc 48 heap1 = Some (0x1030, hx)"
  by (simp cong: let_weak_cong add: heap1_def hx_def evals)

lemma run_y: "mm_malloc 16 hx = Some (0x1068, hy)"
  by (simp cong: let_weak_cong add: hx_def hy_def evals)

lemma run_z: "mm_malloc 8 hy = Some (0x1080, hz)"
  by (simp cong: let_weak_cong add: hy_def hz_def evals)

lemma run_free: "mm_free 0x1030 hz = hfree"
  by (simp cong: let_weak_cong add: hz_def hfree_def evals)

lemma run_re: "mm_realloc 0x1068 8 hfree = Some (0x1030, hre)"
  by (simp cong: let_weak_cong add: hfree_def hre_def evals memcpy_eval)

lemma blocks_heap1: "heap_blocks heap1 = Some [(0x1030, 2048, False)]"
  by (simp cong: let_weak_cong add: heap1_def evals obs_evals)

lemma blocks_hfree: "heap_blocks hfree = Some [(0x1030, 56, False), (0x1068, 24, True), (0x1080, 24, True), (0x1098, 1944, False)]"
  by (simp cong: let_weak_cong add: hfree_def evals obs_evals)

lemma blocks_hre: "heap_blocks hre = Some [(0x1030, 32, True), (0x1050, 24, False), (0x1068, 24, False), (0x1080, 24, True), (0x1098, 1944, False)]"
  by (simp cong: let_weak_cong add: hre_def evals obs_evals)

lemma registry_heap1: "registry heap1 = Some [0x1030, 0x1008]"
  by (simp cong: let_weak_cong add: heap1_def evals obs_evals)

lemma registry_hre: "registry hre = Some [0x1050, 0x1098, 0x1008]"
  by (simp cong: let_weak_cong add: hre_def evals obs_evals)

section \<open>Words, tags and sizes\<close>

lemma unat32_lt: "unat (w::u32) < 4294967296"
proof -
  have "unat w < 2 ^ LENGTH(32)" by (rule unsigned_less)
  then show ?thesis by simp
qed

lemma unat64_lt: "unat (w::addr) < 18446744073709551616"
proof -
  have "unat w < 2 ^ LENGTH(64)" by (rule unsigned_less)
  then show ?thesis by simp
qed

lemma unat_ucast_up: "unat (ucast (w::u32) :: addr) = unat w"
proof -
  have "unat w < 2 ^ 64" using unat32_lt[of w] by simp
  then show ?thesis by (simp add: unsigned_ucast_eq take_bit_nat_eq_self)
qed

lemma seven_mask: "(7::u32) = mask 3"
  by (simp add: mask_eq_exp_minus_1)

lemma and7: "8 dvd unat (sz::u32) \<Longrightarrow> sz AND 7 = 0"
proof -
  assume "8 dvd unat sz"
  then have "unat sz mod 8 = 0" by auto
  then have "unat (sz mod 8) = 0" by (simp add: unat_word_ariths)
  then have "sz mod 8 = 0" by (simp add: unat_0_iff)
  then have "take_bit 3 sz = 0" by (simp add: take_bit_eq_mod)
  then show ?thesis by (simp add: take_bit_eq_mask seven_mask)
qed

lemma and_not_self: "(x::u32) AND m = 0 \<Longrightarrow> x AND NOT m = x"
  by (auto simp: bit_eq_iff bit_simps)

lemma and1_of_and7: "(x::u32) AND 7 = 0 \<Longrightarrow> x AND 1 = 0"
proof -
  assume a: "x AND 7 = 0"
  have "x AND 1 = (x AND 7) AND 1" by (simp add: and.assoc)
  with a show ?thesis by simp
qed

lemma pack_size: "sz AND 7 = 0 \<Longrightarrow> alloc = 0 \<or> alloc = 1 \<Longrightarrow> PACK sz alloc AND NOT 7 = sz"
proof -
  assume a: "sz AND 7 = 0" and b: "alloc = 0 \<or> alloc = 1"
  have c: "sz AND NOT 7 = sz" using a by (rule and_not_self)
  from b show ?thesis
  proof
    assume "alloc = 0" with c show ?thesis by (simp add: PACK_def)
  next
    assume "alloc = 1"
    then have "PACK sz alloc AND NOT 7 = (sz AND NOT 7) OR (1 AND NOT 7)"
      by (simp only: PACK_def bit.conj_disj_distrib2) simp
    with c show ?thesis by simp
  qed
qed

lemma pack_alloc: "sz AND 7 = 0 \<Longrightarrow> alloc = 0 \<or> alloc = 1 \<Longrightarrow> PACK sz alloc AND 1 = alloc"
proof -
  assume a: "sz AND 7 = 0" and b: "alloc = 0 \<or> alloc = 1"
  have c: "sz AND 1 = 0" using a by (rule and1_of_and7)
  have "PACK sz alloc AND 1 = (sz AND 1) OR ((alloc AND 1) AND 1)"
    by (simp only: PACK_def bit.conj_disj_distrib2)
  with b c show ?thesis by auto
qed

lemma GET_PUT_same: "GET (PUT p v s) p = v"
  by (simp add: GET_def PUT_def rd32_wr32_same)


section \<open>Addresses and tags as numbers\<close>

text \<open>
  The invariant of the heap is stated over natural numbers: \<open>ptr x\<close> is the address
  \<open>x\<close>, \<open>tag n al\<close> the boundary tag of a block of \<open>n\<close> bytes, and \<open>RD64\<close>, \<open>WR64\<close>
  read and write a link field. Writes to cells that do not overlap are independent.
\<close>

definition ptr :: "nat \<Rightarrow> addr" where
  "ptr x = of_nat x"

definition tag :: "nat \<Rightarrow> bool \<Rightarrow> u32" where
  "tag n al = PACK (of_nat n) (if al then 1 else 0)"

definition RD64 :: "heap \<Rightarrow> nat \<Rightarrow> addr" where
  "RD64 s x = rd64 (mem s) (ptr x)"

definition WR64 :: "nat \<Rightarrow> addr \<Rightarrow> heap \<Rightarrow> heap" where
  "WR64 x v s = s\<lparr>mem := wr64 (ptr x) v (mem s)\<rparr>"

lemma ptr_0: "ptr 0 = NULL" by (simp add: ptr_def NULL_def)

lemma unat_ptr: "x < 2 ^ 64 \<Longrightarrow> unat (ptr x) = x"
  by (simp add: ptr_def unat_of_nat64)

lemma ptr_unat: "ptr (unat p) = p"
  by (simp add: ptr_def)

lemma ptr_inj: "x < 2 ^ 64 \<Longrightarrow> y < 2 ^ 64 \<Longrightarrow> (ptr x = ptr y) = (x = y)"
  by (metis unat_ptr)

lemma ptr_eq_NULL: "x < 2 ^ 64 \<Longrightarrow> (ptr x = NULL) = (x = 0)"
  using ptr_inj[of x 0] by (simp add: ptr_0)

lemma ptr_add: "ptr x + of_nat k = ptr (x + k)"
  by (simp add: ptr_def)

lemma ptr_add_numeral: "ptr x + numeral k = ptr (x + numeral k)"
  by (simp add: ptr_def)

lemma ptr_sub: "k \<le> x \<Longrightarrow> ptr x - of_nat k = ptr (x - k)"
  by (simp add: ptr_def)

lemma ptr_sub_numeral: "numeral k \<le> x \<Longrightarrow> ptr x - numeral k = ptr (x - numeral k)"
  using ptr_sub[of "numeral k" x] by simp

lemma ucast_of_nat_32_64: "n < 2 ^ 32 \<Longrightarrow> (ucast (of_nat n :: u32) :: addr) = of_nat n"
  by (simp add: word_unat_eq_iff unat_ucast_up unat_of_nat)

lemma ucast_of_nat_64_32: "(ucast (of_nat n :: addr) :: u32) = of_nat n"
  by (rule bit_word_eqI) (auto simp: bit_simps bit_of_nat_iff)

lemma tag_size: "n < 2 ^ 32 \<Longrightarrow> 8 dvd n \<Longrightarrow> tag n al AND NOT 7 = of_nat n"
  unfolding tag_def by (rule pack_size) (auto intro!: and7 simp: unat_of_nat)

lemma tag_alloc: "n < 2 ^ 32 \<Longrightarrow> 8 dvd n \<Longrightarrow> tag n al AND 1 = (if al then 1 else 0)"
  unfolding tag_def by (rule pack_alloc) (auto intro!: and7 simp: unat_of_nat)

lemma apart4_ptr:
  "x + 4 \<le> y \<or> y + 4 \<le> x \<Longrightarrow> x + 4 \<le> 2 ^ 64 \<Longrightarrow> y + 4 \<le> 2 ^ 64 \<Longrightarrow> apart4 (ptr x) (ptr y)"
  unfolding ptr_def by (rule apart4_of_nat)

lemma GET_PUT_other:
  "x + 4 \<le> y \<or> y + 4 \<le> x \<Longrightarrow> x + 4 \<le> 2 ^ 64 \<Longrightarrow> y + 4 \<le> 2 ^ 64 \<Longrightarrow>
   GET (PUT (ptr y) v s) (ptr x) = GET s (ptr x)"
proof -
  assume a: "x + 4 \<le> y \<or> y + 4 \<le> x" "x + 4 \<le> 2 ^ 64" "y + 4 \<le> 2 ^ 64"
  have "apart4 (ptr y) (ptr x)" using a by (intro apart4_ptr) auto
  then show ?thesis by (simp add: GET_def PUT_def rd32_wr32_apart)
qed

lemma GET_WR64_other:
  "x + 4 \<le> y \<or> y + 8 \<le> x \<Longrightarrow> x + 4 \<le> 2 ^ 64 \<Longrightarrow> y + 8 \<le> 2 ^ 64 \<Longrightarrow>
   GET (WR64 y v s) (ptr x) = GET s (ptr x)"
proof -
  assume a: "x + 4 \<le> y \<or> y + 8 \<le> x" "x + 4 \<le> 2 ^ 64" "y + 8 \<le> 2 ^ 64"
  have 1: "apart4 (ptr y) (ptr x)" using a by (intro apart4_ptr) auto
  have 2: "apart4 (ptr (y + 4)) (ptr x)" using a by (intro apart4_ptr) auto
  have e: "ptr y + 4 = ptr (y + 4)" by (simp add: ptr_def)
  show ?thesis using 1 2 by (simp add: GET_def WR64_def wr64_def rd32_wr32_apart e)
qed

lemma RD64_PUT_other:
  "x + 8 \<le> y \<or> y + 4 \<le> x \<Longrightarrow> x + 8 \<le> 2 ^ 64 \<Longrightarrow> y + 4 \<le> 2 ^ 64 \<Longrightarrow>
   RD64 (PUT (ptr y) v s) x = RD64 s x"
proof -
  assume a: "x + 8 \<le> y \<or> y + 4 \<le> x" "x + 8 \<le> 2 ^ 64" "y + 4 \<le> 2 ^ 64"
  have 1: "apart4 (ptr y) (ptr x)" using a by (intro apart4_ptr) auto
  have 2: "apart4 (ptr y) (ptr (x + 4))" using a by (intro apart4_ptr) auto
  have e: "ptr x + 4 = ptr (x + 4)" by (simp add: ptr_def)
  show ?thesis using 1 2 by (simp add: RD64_def PUT_def rd64_def rd32_wr32_apart e)
qed

lemma RD64_WR64_same: "RD64 (WR64 x v s) x = v"
  by (simp add: RD64_def WR64_def rd64_wr64_same)

lemma RD64_WR64_other:
  "x + 8 \<le> y \<or> y + 8 \<le> x \<Longrightarrow> x + 8 \<le> 2 ^ 64 \<Longrightarrow> y + 8 \<le> 2 ^ 64 \<Longrightarrow>
   RD64 (WR64 y v s) x = RD64 s x"
proof -
  assume a: "x + 8 \<le> y \<or> y + 8 \<le> x" "x + 8 \<le> 2 ^ 64" "y + 8 \<le> 2 ^ 64"
  have 1: "apart4 (ptr y) (ptr x)" "apart4 (ptr y) (ptr (x + 4))"
    "apart4 (ptr (y + 4)) (ptr x)" "apart4 (ptr (y + 4)) (ptr (x + 4))"
    using a by (auto intro!: apart4_ptr)
  have e: "ptr x + 4 = ptr (x + 4)" "ptr y + 4 = ptr (y + 4)" by (simp_all add: ptr_def)
  show ?thesis using 1 by (simp add: RD64_def WR64_def rd64_def wr64_def rd32_wr32_apart e)
qed

lemma fields_PUT [simp]:
  "mem_start_brk (PUT p v s) = mem_start_brk s" "mem_brk (PUT p v s) = mem_brk s"
  "mem_max_addr (PUT p v s) = mem_max_addr s" "heap_listp (PUT p v s) = heap_listp s"
  "list_root (PUT p v s) = list_root s"
  by (simp_all add: PUT_def)

lemma fields_WR64 [simp]:
  "mem_start_brk (WR64 p v s) = mem_start_brk s" "mem_brk (WR64 p v s) = mem_brk s"
  "mem_max_addr (WR64 p v s) = mem_max_addr s" "heap_listp (WR64 p v s) = heap_listp s"
  "list_root (WR64 p v s) = list_root s"
  by (simp_all add: WR64_def)

lemma upd_root [simp]:
  "GET (s\<lparr>list_root := r\<rparr>) p = GET s p" "RD64 (s\<lparr>list_root := r\<rparr>) x = RD64 s x"
  "WR64 x v (s\<lparr>list_root := r\<rparr>) = (WR64 x v s)\<lparr>list_root := r\<rparr>"
  by (simp_all add: GET_def RD64_def WR64_def)

lemma links_ptr:
  "BACK s (ptr x) = RD64 s x" "FORWARD s (ptr x) = RD64 s (x + 8)" "PRED s (ptr x) = RD64 s (x + 8)"
  "set_BACK (ptr x) v s = WR64 x v s" "set_FORWARD (ptr x) v s = WR64 (x + 8) v s"
  by (simp_all add: BACK_def FORWARD_def PRED_def set_BACK_def set_FORWARD_def RD64_def WR64_def
      ALIGNMENT_def ptr_def)

section \<open>The layout of a heap\<close>

text \<open>
  A heap is described by the list of its blocks, each with its size and allocated bit,
  laid out from the first block on: \<open>tags_at\<close> says that every block of the list has
  its header and footer in memory, \<open>starts\<close> and \<open>frees\<close> give the block pointers and
  those of the free blocks, \<open>no_adj\<close> says that no two neighbours are both free. The
  registry is a doubly linked list \<open>dll\<close> through the first sixteen bytes of its
  members' payloads; \<open>clear M c\<close> says that the word at \<open>c\<close> is outside the link fields
  of the members \<open>M\<close>.
\<close>

fun total_size :: "(nat \<times> bool) list \<Rightarrow> nat" where
  "total_size [] = 0"
| "total_size ((n, al) # bs) = n + total_size bs"

fun sizes_ok :: "(nat \<times> bool) list \<Rightarrow> bool" where
  "sizes_ok [] = True"
| "sizes_ok ((n, al) # bs) = (24 \<le> n \<and> 8 dvd n \<and> sizes_ok bs)"

fun tags_at :: "heap \<Rightarrow> nat \<Rightarrow> (nat \<times> bool) list \<Rightarrow> bool" where
  "tags_at s a [] = True"
| "tags_at s a ((n, al) # bs) =
     (GET s (ptr (a - 4)) = tag n al \<and> GET s (ptr (a + n - 8)) = tag n al \<and> tags_at s (a + n) bs)"

fun starts :: "nat \<Rightarrow> (nat \<times> bool) list \<Rightarrow> nat list" where
  "starts a [] = []"
| "starts a ((n, al) # bs) = a # starts (a + n) bs"

fun frees :: "nat \<Rightarrow> (nat \<times> bool) list \<Rightarrow> nat list" where
  "frees a [] = []"
| "frees a ((n, al) # bs) = (if al then frees (a + n) bs else a # frees (a + n) bs)"

fun no_adj :: "(nat \<times> bool) list \<Rightarrow> bool" where
  "no_adj [] = True"
| "no_adj [b] = True"
| "no_adj ((n, al) # (m, am) # bs) = ((al \<or> am) \<and> no_adj ((m, am) # bs))"

definition clear :: "nat set \<Rightarrow> nat \<Rightarrow> bool" where
  "clear M c = (\<forall>x\<in>M. c + 4 \<le> x \<or> x + 16 \<le> c)"

definition nodes_ok :: "nat set \<Rightarrow> bool" where
  "nodes_ok M = ((\<forall>x\<in>M. 0 < x \<and> x + 16 \<le> 2 ^ 64) \<and>
     (\<forall>x\<in>M. \<forall>y\<in>M. x = y \<or> x + 16 \<le> y \<or> y + 16 \<le> x))"

fun dll :: "heap \<Rightarrow> addr \<Rightarrow> addr \<Rightarrow> nat list \<Rightarrow> addr \<Rightarrow> bool" where
  "dll s p c [] e = (c = e)"
| "dll s p c (x # xs) e = (c = ptr x \<and> RD64 s x = p \<and> dll s (ptr x) (RD64 s (x + 8)) xs e)"

definition hdp :: "nat list \<Rightarrow> nat \<Rightarrow> nat" where
  "hdp ys h = (case ys of [] \<Rightarrow> h | y # _ \<Rightarrow> y)"

definition lastp :: "addr \<Rightarrow> nat list \<Rightarrow> addr" where
  "lastp p xs = (if xs = [] then p else ptr (last xs))"

lemma total_append [simp]: "total_size (xs @ ys) = total_size xs + total_size ys"
  by (induction xs) auto

lemma sizes_ok_append [simp]: "sizes_ok (xs @ ys) = (sizes_ok xs \<and> sizes_ok ys)"
  by (induction xs) auto

lemma tags_at_append: "tags_at s a (xs @ ys) = (tags_at s a xs \<and> tags_at s (a + total_size xs) ys)"
  by (induction xs arbitrary: a) (auto simp: add.assoc)

lemma starts_append: "starts a (xs @ ys) = starts a xs @ starts (a + total_size xs) ys"
  by (induction xs arbitrary: a) (auto simp: add.assoc)

lemma frees_append: "frees a (xs @ ys) = frees a xs @ frees (a + total_size xs) ys"
  by (induction xs arbitrary: a) (auto simp: add.assoc)

lemma starts_bounds: "sizes_ok bs \<Longrightarrow> x \<in> set (starts a bs) \<Longrightarrow> a \<le> x \<and> x + 24 \<le> a + total_size bs"
  by (induction bs arbitrary: a) (auto, force+)

lemma frees_in_starts: "x \<in> set (frees a bs) \<Longrightarrow> x \<in> set (starts a bs)"
  by (induction bs arbitrary: a) (auto split: if_splits)

lemma frees_subset: "set (frees a bs) \<subseteq> set (starts a bs)"
  using frees_in_starts by blast

lemma distinct_starts: "sizes_ok bs \<Longrightarrow> distinct (starts a bs)"
proof (induction bs arbitrary: a)
  case Nil
  then show ?case by simp
next
  case (Cons b bs)
  obtain n al where b: "b = (n, al)" by (cases b)
  from Cons.prems b have ok: "sizes_ok bs" and n: "24 \<le> n" by auto
  have "a \<notin> set (starts (a + n) bs)" using starts_bounds[OF ok, of a "a + n"] n by auto
  with Cons.IH[OF ok] b show ?case by simp
qed

lemma distinct_frees: "sizes_ok bs \<Longrightarrow> distinct (frees a bs)"
proof (induction bs arbitrary: a)
  case Nil
  then show ?case by simp
next
  case (Cons b bs)
  obtain n al where b: "b = (n, al)" by (cases b)
  from Cons.prems b have ok: "sizes_ok bs" and n: "24 \<le> n" by auto
  have "a \<notin> set (starts (a + n) bs)" using starts_bounds[OF ok, of a "a + n"] n by auto
  then have "a \<notin> set (frees (a + n) bs)" using frees_subset by blast
  with Cons.IH[OF ok] b show ?case by simp
qed

text \<open>Tags are untouched by a write outside their range, and by writes to link fields.\<close>

lemma tags_at_cong:
  "sizes_ok bs \<Longrightarrow> 4 \<le> a \<Longrightarrow>
   (\<And>c. a \<le> c + 4 \<Longrightarrow> c + 8 \<le> a + total_size bs \<Longrightarrow> P c \<Longrightarrow> GET s' (ptr c) = GET s (ptr c)) \<Longrightarrow>
   (\<And>n al pre post. bs = pre @ (n, al) # post \<Longrightarrow> P (a + total_size pre - 4) \<and> P (a + total_size pre + n - 8)) \<Longrightarrow>
   tags_at s' a bs = tags_at s a bs"
proof (induction bs arbitrary: a)
  case Nil
  then show ?case by simp
next
  case (Cons b bs)
  obtain n al where b: "b = (n, al)" by (cases b)
  from Cons.prems(1) b have ok: "sizes_ok bs" and n: "24 \<le> n" by auto
  have P: "P (a - 4)" "P (a + n - 8)" using Cons.prems(4)[of "[]" n al bs] b by auto
  have h: "GET s' (ptr (a - 4)) = GET s (ptr (a - 4))"
    using Cons.prems(2) n b P by (intro Cons.prems(3)) auto
  have f: "GET s' (ptr (a + n - 8)) = GET s (ptr (a + n - 8))"
    using Cons.prems(2) n b P by (intro Cons.prems(3)) auto
  have r: "tags_at s' (a + n) bs = tags_at s (a + n) bs"
  proof (rule Cons.IH[OF ok])
    show "4 \<le> a + n" using Cons.prems(2) by simp
  next
    fix c assume "a + n \<le> c + 4" "c + 8 \<le> a + n + total_size bs" "P c"
    then show "GET s' (ptr c) = GET s (ptr c)" using b n by (intro Cons.prems(3)) auto
  next
    fix m am pre post assume "bs = pre @ (m, am) # post"
    then have "b # bs = (b # pre) @ (m, am) # post" by simp
    from Cons.prems(4)[OF this] b
    show "P (a + n + total_size pre - 4) \<and> P (a + n + total_size pre + m - 8)" by (simp add: add.assoc)
  qed
  show ?case using h f r b by simp
qed

lemma tags_at_PUT_outside:
  assumes "sizes_ok bs" "4 \<le> a" "a + total_size bs \<le> 2 ^ 64" "y + 4 \<le> 2 ^ 64"
    "y + 8 \<le> a \<or> a + total_size bs \<le> y + 4"
  shows "tags_at (PUT (ptr y) v s) a bs = tags_at s a bs"
proof (rule tags_at_cong[where P = "\<lambda>c. True", OF assms(1,2)])
  fix c assume "a \<le> c + 4" "c + 8 \<le> a + total_size bs" "True"
  then show "GET (PUT (ptr y) v s) (ptr c) = GET s (ptr c)"
    using assms by (intro GET_PUT_other) auto
qed simp

lemma clear_start:
  "sizes_ok (pre @ (n, al) # post) \<Longrightarrow> x \<in> set (starts a (pre @ (n, al) # post)) \<Longrightarrow>
   x + 24 \<le> a + total_size pre \<or> x = a + total_size pre \<or> a + total_size pre + n \<le> x"
  using starts_bounds[of pre x a] starts_bounds[of post x "a + total_size pre + n"]
  by (auto simp: starts_append)

lemma tags_at_clear:
  assumes ok: "sizes_ok bs" and a: "4 \<le> a" and bnd: "a + total_size bs \<le> 2 ^ 64"
    and fr: "\<And>c. clear M c \<Longrightarrow> c + 4 \<le> 2 ^ 64 \<Longrightarrow> GET s' (ptr c) = GET s (ptr c)"
    and M: "\<forall>x\<in>M. x \<in> set (starts a bs) \<or> x + 20 \<le> a \<or> a + total_size bs \<le> x + 4"
  shows "tags_at s' a bs = tags_at s a bs"
proof (rule tags_at_cong[where P = "clear M", OF ok a])
  fix c assume "a \<le> c + 4" "c + 8 \<le> a + total_size bs" "clear M c"
  then show "GET s' (ptr c) = GET s (ptr c)" using bnd by (intro fr) auto
next
  fix n al pre post assume bs: "bs = pre @ (n, al) # post"
  have n: "24 \<le> n" using ok bs by simp
  {
    fix x assume "x \<in> M"
    with M have "x \<in> set (starts a bs) \<or> x + 20 \<le> a \<or> a + total_size bs \<le> x + 4" by blast
    then have "x + 24 \<le> a + total_size pre \<or> x = a + total_size pre \<or> a + total_size pre + n \<le> x
        \<or> x + 20 \<le> a \<or> a + total_size bs \<le> x + 4"
      using clear_start[of pre n al post x a] ok bs by auto
    then have "(a + total_size pre - 4 + 4 \<le> x \<or> x + 16 \<le> a + total_size pre - 4)
        \<and> (a + total_size pre + n - 8 + 4 \<le> x \<or> x + 16 \<le> a + total_size pre + n - 8)"
      using n a bs by auto
  }
  then show "clear M (a + total_size pre - 4) \<and> clear M (a + total_size pre + n - 8)"
    unfolding clear_def by blast
qed

text \<open>The doubly linked list.\<close>

lemma dll_cong:
  "(\<And>x. x \<in> set xs \<Longrightarrow> RD64 s' x = RD64 s x \<and> RD64 s' (x + 8) = RD64 s (x + 8)) \<Longrightarrow>
   dll s' p c xs e = dll s p c xs e"
  by (induction xs arbitrary: p c) auto

lemma dll_append:
  "dll s p c (xs @ ys) (ptr h) =
     (dll s p c xs (ptr (hdp ys h)) \<and> dll s (lastp p xs) (ptr (hdp ys h)) ys (ptr h))"
proof (induction xs arbitrary: p c)
  case Nil
  show ?case by (cases ys) (auto simp: hdp_def lastp_def)
next
  case (Cons x xs)
  show ?case using Cons.IH[of "ptr x" "RD64 s (x + 8)"] by (auto simp: lastp_def)
qed

lemma dll_PUT:
  assumes "\<forall>x\<in>set xs. (y + 4 \<le> x \<or> x + 16 \<le> y) \<and> x + 16 \<le> 2 ^ 64" "y + 4 \<le> 2 ^ 64"
  shows "dll (PUT (ptr y) v s) p c xs e = dll s p c xs e"
proof (rule dll_cong)
  fix x assume "x \<in> set xs"
  with assms have "(y + 4 \<le> x \<or> x + 16 \<le> y)" "x + 16 \<le> 2 ^ 64" by auto
  then show "RD64 (PUT (ptr y) v s) x = RD64 s x \<and> RD64 (PUT (ptr y) v s) (x + 8) = RD64 s (x + 8)"
    using assms(2) by (auto intro!: RD64_PUT_other)
qed

section \<open>Inserting into and removing from the list\<close>

text \<open>
  \<^verbatim>\<open>add_node\<close> puts a block in front of the list and \<^verbatim>\<open>delete_node\<close> unlinks a
  member; both leave every word outside the link fields of the members as it was, and
  neither touches the forward link of the last node.
\<close>

lemma dll_hd: "dll s p c ys (ptr h) \<Longrightarrow> c = ptr (hdp ys h)"
  by (cases ys) (auto simp: hdp_def)

definition nb :: "nat \<Rightarrow> bool" where
  "nb x = (x + 16 \<le> 2 ^ 64)"

definition cb :: "nat \<Rightarrow> bool" where
  "cb c = (c + 4 \<le> 2 ^ 64)"

lemma nb_cb: "nb x \<Longrightarrow> cb x" "nb x \<Longrightarrow> cb (x + 4)" "nb x \<Longrightarrow> cb (x + 8)" "nb x \<Longrightarrow> cb (x + 12)"
  by (simp_all add: nb_def cb_def)

lemma node_frame:
  "nb x \<Longrightarrow> nb w \<Longrightarrow> x + 16 \<le> w \<Longrightarrow> RD64 (WR64 w v s) x = RD64 s x"
  "nb x \<Longrightarrow> nb w \<Longrightarrow> x + 16 \<le> w \<Longrightarrow> RD64 (WR64 w v s) (x + 8) = RD64 s (x + 8)"
  "nb x \<Longrightarrow> nb w \<Longrightarrow> x + 16 \<le> w \<Longrightarrow> RD64 (WR64 (w + 8) v s) x = RD64 s x"
  "nb x \<Longrightarrow> nb w \<Longrightarrow> x + 16 \<le> w \<Longrightarrow> RD64 (WR64 (w + 8) v s) (x + 8) = RD64 s (x + 8)"
  "nb x \<Longrightarrow> nb w \<Longrightarrow> w + 16 \<le> x \<Longrightarrow> RD64 (WR64 w v s) x = RD64 s x"
  "nb x \<Longrightarrow> nb w \<Longrightarrow> w + 16 \<le> x \<Longrightarrow> RD64 (WR64 w v s) (x + 8) = RD64 s (x + 8)"
  "nb x \<Longrightarrow> nb w \<Longrightarrow> w + 16 \<le> x \<Longrightarrow> RD64 (WR64 (w + 8) v s) x = RD64 s x"
  "nb x \<Longrightarrow> nb w \<Longrightarrow> w + 16 \<le> x \<Longrightarrow> RD64 (WR64 (w + 8) v s) (x + 8) = RD64 s (x + 8)"
  unfolding nb_def by (auto intro!: RD64_WR64_other)

lemma own_frame:
  "nb x \<Longrightarrow> RD64 (WR64 x v s) (x + 8) = RD64 s (x + 8)"
  "nb x \<Longrightarrow> RD64 (WR64 (x + 8) v s) x = RD64 s x"
  unfolding nb_def by (auto intro!: RD64_WR64_other)

lemma cell_frame:
  "cb c \<Longrightarrow> nb w \<Longrightarrow> c + 4 \<le> w \<Longrightarrow> GET (WR64 w v s) (ptr c) = GET s (ptr c)"
  "cb c \<Longrightarrow> nb w \<Longrightarrow> c + 4 \<le> w \<Longrightarrow> GET (WR64 (w + 8) v s) (ptr c) = GET s (ptr c)"
  "cb c \<Longrightarrow> nb w \<Longrightarrow> w + 16 \<le> c \<Longrightarrow> GET (WR64 w v s) (ptr c) = GET s (ptr c)"
  "cb c \<Longrightarrow> nb w \<Longrightarrow> w + 16 \<le> c \<Longrightarrow> GET (WR64 (w + 8) v s) (ptr c) = GET s (ptr c)"
  unfolding nb_def cb_def by (auto intro!: GET_WR64_other)

lemma clearD: "clear M c \<Longrightarrow> w \<in> M \<Longrightarrow> c + 4 \<le> w \<or> w + 16 \<le> c"
  unfolding clear_def by blast

lemma nodes_okD:
  assumes "nodes_ok M" "x \<in> M"
  shows "0 < x" "nb x" "x < 2 ^ 64"
  using assms unfolding nodes_ok_def nb_def by auto

lemma nodes_ok_sep:
  assumes "nodes_ok M" "x \<in> M" "y \<in> M" "x \<noteq> y"
  shows "x + 16 \<le> y \<or> y + 16 \<le> x"
  using assms unfolding nodes_ok_def by blast

lemma add_node_eq:
  "list_root s = ptr r \<Longrightarrow> 0 < r \<Longrightarrow> r < 2 ^ 64 \<Longrightarrow>
   add_node (ptr b) s =
     (WR64 r (ptr b) (WR64 b NULL (WR64 (b + 8) (ptr r) s)))\<lparr>list_root := ptr b\<rparr>"
  by (simp add: add_node_def links_ptr ptr_eq_NULL Let_def)

lemma delete_node_head:
  "RD64 s b = NULL \<Longrightarrow> RD64 s (b + 8) = ptr t \<Longrightarrow> 0 < t \<Longrightarrow> t < 2 ^ 64 \<Longrightarrow>
   delete_node (ptr b) s = (WR64 t NULL s)\<lparr>list_root := ptr t\<rparr>"
  by (simp add: delete_node_def links_ptr ptr_eq_NULL Let_def)

lemma delete_node_mid:
  "RD64 s b = ptr p \<Longrightarrow> 0 < p \<Longrightarrow> p < 2 ^ 64 \<Longrightarrow> RD64 s (b + 8) = ptr t \<Longrightarrow> 0 < t \<Longrightarrow>
   t < 2 ^ 64 \<Longrightarrow> RD64 (WR64 (p + 8) (ptr t) s) b = ptr p \<Longrightarrow>
   delete_node (ptr b) s = WR64 t (ptr p) (WR64 (p + 8) (ptr t) s)"
  by (simp add: delete_node_def links_ptr ptr_eq_NULL Let_def)

lemma add_node_spec:
  assumes d: "dll s NULL (list_root s) fl (ptr h)"
    and nk: "nodes_ok (insert b (insert h (set fl)))"
    and b: "b \<notin> set fl" "b \<noteq> h" and di: "distinct fl" and hn: "h \<notin> set fl"
  shows "dll (add_node (ptr b) s) NULL (list_root (add_node (ptr b) s)) (b # fl) (ptr h)"
    and "\<And>c. clear (insert b (insert h (set fl))) c \<Longrightarrow> c + 4 \<le> 2 ^ 64 \<Longrightarrow>
           GET (add_node (ptr b) s) (ptr c) = GET s (ptr c)"
    and "mem_start_brk (add_node (ptr b) s) = mem_start_brk s"
    and "mem_brk (add_node (ptr b) s) = mem_brk s"
    and "mem_max_addr (add_node (ptr b) s) = mem_max_addr s"
    and "heap_listp (add_node (ptr b) s) = heap_listp s"
    and "list_root (add_node (ptr b) s) = ptr b"
    and "RD64 (add_node (ptr b) s) (h + 8) = RD64 s (h + 8)"
proof -
  let ?M = "insert b (insert h (set fl))"
  define r where "r = hdp fl h"
  have root: "list_root s = ptr r" using dll_hd[OF d] by (simp add: r_def)
  have rM: "r \<in> ?M" by (cases fl) (auto simp: r_def hdp_def)
  have rb: "r \<noteq> b" using b by (cases fl) (auto simp: r_def hdp_def)
  note bb = nodes_okD[OF nk, of b, simplified]
  note rr = nodes_okD[OF nk rM]
  have sep_rb: "r + 16 \<le> b \<or> b + 16 \<le> r" using nodes_ok_sep[OF nk rM _ rb] by simp
  define s' where "s' = (WR64 r (ptr b) (WR64 b NULL (WR64 (b + 8) (ptr r) s)))\<lparr>list_root := ptr b\<rparr>"
  have eq: "add_node (ptr b) s = s'" unfolding s'_def using root rr by (intro add_node_eq) auto
  have Bb: "RD64 s' b = NULL"
    using sep_rb bb(2) rr(2) by (elim disjE; simp add: s'_def node_frame RD64_WR64_same)
  have Fb: "RD64 s' (b + 8) = ptr r"
    using sep_rb bb(2) rr(2) by (elim disjE; simp add: s'_def node_frame own_frame RD64_WR64_same)
  have other: "RD64 s' x = RD64 s x \<and> RD64 s' (x + 8) = RD64 s (x + 8)"
    if x: "x \<in> set fl" "x \<noteq> r" for x
  proof -
    have xM: "x \<in> ?M" using x by simp
    have xb: "x \<noteq> b" using x b by auto
    note xx = nodes_okD[OF nk xM]
    have 1: "x + 16 \<le> r \<or> r + 16 \<le> x" using nodes_ok_sep[OF nk xM rM x(2)] .
    have 2: "x + 16 \<le> b \<or> b + 16 \<le> x" using nodes_ok_sep[OF nk xM _ xb] by simp
    show ?thesis using 1 2 xx(2) bb(2) rr(2) by (elim disjE; simp add: s'_def node_frame)
  qed
  have tail: "dll s' (ptr b) (ptr r) fl (ptr h)"
  proof (cases fl)
    case Nil
    then show ?thesis by (simp add: r_def hdp_def)
  next
    case (Cons y ys)
    then have ry: "r = y" by (simp add: r_def hdp_def)
    from d Cons have dy: "dll s (ptr y) (RD64 s (y + 8)) ys (ptr h)" by simp
    have By: "RD64 s' y = ptr b" using ry by (simp add: s'_def RD64_WR64_same)
    have Fy: "RD64 s' (y + 8) = RD64 s (y + 8)"
      using sep_rb bb(2) rr(2) ry by (elim disjE; simp add: s'_def node_frame own_frame)
    have "dll s' (ptr y) (RD64 s (y + 8)) ys (ptr h) = dll s (ptr y) (RD64 s (y + 8)) ys (ptr h)"
    proof (rule dll_cong)
      fix x assume "x \<in> set ys"
      then have "x \<in> set fl" "x \<noteq> r" using Cons di ry by auto
      then show "RD64 s' x = RD64 s x \<and> RD64 s' (x + 8) = RD64 s (x + 8)" by (rule other)
    qed
    with dy By Fy Cons ry show ?thesis by simp
  qed
  show "dll (add_node (ptr b) s) NULL (list_root (add_node (ptr b) s)) (b # fl) (ptr h)"
    using tail Bb Fb by (simp add: eq) (simp add: s'_def)
  show "GET (add_node (ptr b) s) (ptr c) = GET s (ptr c)"
    if c: "clear ?M c" "c + 4 \<le> 2 ^ 64" for c
  proof -
    have cbc: "cb c" using c(2) by (simp add: cb_def)
    have 1: "c + 4 \<le> b \<or> b + 16 \<le> c" using clearD[OF c(1), of b] by simp
    have 2: "c + 4 \<le> r \<or> r + 16 \<le> c" using clearD[OF c(1) rM] .
    show ?thesis using 1 2 cbc bb(2) rr(2) by (elim disjE; simp add: eq s'_def cell_frame)
  qed
  show "mem_start_brk (add_node (ptr b) s) = mem_start_brk s"
    "mem_brk (add_node (ptr b) s) = mem_brk s"
    "mem_max_addr (add_node (ptr b) s) = mem_max_addr s"
    "heap_listp (add_node (ptr b) s) = heap_listp s"
    "list_root (add_node (ptr b) s) = ptr b"
    by (simp_all add: eq s'_def)
  note hh = nodes_okD[OF nk, of h, simplified]
  have sep_hb: "h + 16 \<le> b \<or> b + 16 \<le> h" using nodes_ok_sep[OF nk, of h b] b by simp
  show "RD64 (add_node (ptr b) s) (h + 8) = RD64 s (h + 8)"
  proof (cases "r = h")
    case True
    show ?thesis using sep_hb bb(2) hh(2)
      by (elim disjE; simp add: eq s'_def True node_frame own_frame)
  next
    case False
    have "h + 16 \<le> r \<or> r + 16 \<le> h" using nodes_ok_sep[OF nk _ rM, of h] False by simp
    then show ?thesis using sep_hb bb(2) hh(2) rr(2)
      by (elim disjE; simp add: eq s'_def node_frame)
  qed
qed


lemma remove1_mid: "b \<notin> set xs \<Longrightarrow> remove1 b (xs @ b # ys) = xs @ ys"
  by (induction xs) auto

lemma delete_node_spec:
  assumes d: "dll s NULL (list_root s) fl (ptr h)"
    and nk: "nodes_ok (insert h (set fl))"
    and b: "b \<in> set fl" and di: "distinct fl" and hn: "h \<notin> set fl"
  shows "dll (delete_node (ptr b) s) NULL (list_root (delete_node (ptr b) s)) (remove1 b fl) (ptr h)"
    and "\<And>c. clear (insert h (set fl)) c \<Longrightarrow> c + 4 \<le> 2 ^ 64 \<Longrightarrow>
           GET (delete_node (ptr b) s) (ptr c) = GET s (ptr c)"
    and "mem_start_brk (delete_node (ptr b) s) = mem_start_brk s"
    and "mem_brk (delete_node (ptr b) s) = mem_brk s"
    and "mem_max_addr (delete_node (ptr b) s) = mem_max_addr s"
    and "heap_listp (delete_node (ptr b) s) = heap_listp s"
    and "RD64 (delete_node (ptr b) s) (h + 8) = RD64 s (h + 8)"
proof -
  let ?M = "insert h (set fl)"
  let ?s' = "delete_node (ptr b) s"
  obtain xs ys where fl: "fl = xs @ b # ys" using split_list[OF b] by blast
  have bx: "b \<notin> set xs" and by': "b \<notin> set ys" using di fl by auto
  define t where "t = hdp ys h"
  have tM: "t \<in> ?M" by (cases ys) (auto simp: t_def hdp_def fl)
  have tb: "t \<noteq> b" using by' hn b by (cases ys) (auto simp: t_def hdp_def)
  have bM: "b \<in> ?M" using b by simp
  note tt = nodes_okD[OF nk tM]
  note bb = nodes_okD[OF nk bM]
  from d have d1: "dll s NULL (list_root s) xs (ptr b)"
    and Bb: "RD64 s b = lastp NULL xs"
    and d2: "dll s (ptr b) (RD64 s (b + 8)) ys (ptr h)"
    unfolding fl dll_append by (simp_all add: hdp_def)
  have Fb: "RD64 s (b + 8) = ptr t" using dll_hd[OF d2] by (simp add: t_def)
  have rm: "remove1 b fl = xs @ ys" using bx by (simp add: fl remove1_mid)
  have tail_frame: "dll s'' (ptr q) (ptr t) ys (ptr h)"
    if w: "RD64 s'' t = ptr q"
      and fr: "\<And>x. x \<in> set fl \<Longrightarrow> x \<noteq> t \<Longrightarrow> x \<noteq> q' \<Longrightarrow>
        RD64 s'' x = RD64 s x \<and> RD64 s'' (x + 8) = RD64 s (x + 8)"
      and ft: "RD64 s'' (t + 8) = RD64 s (t + 8)" and q': "q' \<notin> set ys"
    for s'' q q'
  proof (cases ys)
    case Nil
    then show ?thesis by (simp add: t_def hdp_def)
  next
    case (Cons y ys')
    then have ty: "t = y" by (simp add: t_def hdp_def)
    from d2 Cons have dy: "dll s (ptr y) (RD64 s (y + 8)) ys' (ptr h)" by simp
    have "dll s'' (ptr y) (RD64 s (y + 8)) ys' (ptr h) = dll s (ptr y) (RD64 s (y + 8)) ys' (ptr h)"
    proof (rule dll_cong)
      fix x assume x: "x \<in> set ys'"
      then have "x \<in> set fl" "x \<noteq> t" "x \<noteq> q'" using Cons di fl ty q' by auto
      then show "RD64 s'' x = RD64 s x \<and> RD64 s'' (x + 8) = RD64 s (x + 8)" by (rule fr)
    qed
    with dy w ft ty Cons show ?thesis by simp
  qed
  note hh = nodes_okD[OF nk, of h, simplified]
  have th: "RD64 (WR64 t v s'') (h + 8) = RD64 s'' (h + 8)" for v s''
  proof (cases "t = h")
    case True
    show ?thesis using hh(2) by (simp add: True own_frame)
  next
    case False
    have "h + 16 \<le> t \<or> t + 16 \<le> h" using nodes_ok_sep[OF nk _ tM, of h] False by simp
    then show ?thesis using hh(2) tt(2) by (elim disjE; simp add: node_frame)
  qed
  show "dll ?s' NULL (list_root ?s') (remove1 b fl) (ptr h)"
    "\<And>c. clear ?M c \<Longrightarrow> c + 4 \<le> 2 ^ 64 \<Longrightarrow> GET ?s' (ptr c) = GET s (ptr c)"
    "mem_start_brk ?s' = mem_start_brk s" "mem_brk ?s' = mem_brk s"
    "mem_max_addr ?s' = mem_max_addr s" "heap_listp ?s' = heap_listp s"
    "RD64 ?s' (h + 8) = RD64 s (h + 8)"
  proof -
    have "dll ?s' NULL (list_root ?s') (remove1 b fl) (ptr h)
      \<and> (\<forall>c. clear ?M c \<longrightarrow> c + 4 \<le> 2 ^ 64 \<longrightarrow> GET ?s' (ptr c) = GET s (ptr c))
      \<and> mem_start_brk ?s' = mem_start_brk s \<and> mem_brk ?s' = mem_brk s
      \<and> mem_max_addr ?s' = mem_max_addr s \<and> heap_listp ?s' = heap_listp s
      \<and> RD64 ?s' (h + 8) = RD64 s (h + 8)" (is ?goal)
    proof (cases "xs = []")
      case True
      then have B0: "RD64 s b = NULL" using Bb by (simp add: lastp_def)
      define s1 where "s1 = (WR64 t NULL s)\<lparr>list_root := ptr t\<rparr>"
      have eq: "?s' = s1" unfolding s1_def using B0 Fb tt by (intro delete_node_head) auto
      have "dll s1 (ptr 0) (ptr t) ys (ptr h)"
      proof (rule tail_frame[where q' = b])
        show "RD64 s1 t = ptr 0" by (simp add: s1_def RD64_WR64_same ptr_0)
      next
        fix x assume x: "x \<in> set fl" "x \<noteq> t" "x \<noteq> b"
        then have xM: "x \<in> ?M" by simp
        have "x + 16 \<le> t \<or> t + 16 \<le> x" using nodes_ok_sep[OF nk xM tM x(2)] .
        then show "RD64 s1 x = RD64 s x \<and> RD64 s1 (x + 8) = RD64 s (x + 8)"
          using nodes_okD(2)[OF nk xM] tt(2) by (elim disjE; simp add: s1_def node_frame)
      next
        show "RD64 s1 (t + 8) = RD64 s (t + 8)" using tt(2) by (simp add: s1_def own_frame)
      next
        show "b \<notin> set ys" by (rule by')
      qed
      then have A: "dll s1 NULL (list_root s1) (remove1 b fl) (ptr h)"
        using True by (simp add: rm s1_def ptr_0)
      have Bf: "GET s1 (ptr c) = GET s (ptr c)" if c: "clear ?M c" "c + 4 \<le> 2 ^ 64" for c
      proof -
        have cbc: "cb c" using c(2) by (simp add: cb_def)
        have "c + 4 \<le> t \<or> t + 16 \<le> c" using clearD[OF c(1) tM] .
        then show ?thesis using cbc tt(2) by (elim disjE; simp add: s1_def cell_frame)
      qed
      have Ch: "RD64 s1 (h + 8) = RD64 s (h + 8)" using th[of NULL s] by (simp add: s1_def)
      show ?goal unfolding eq using A Bf Ch by (simp add: s1_def)
    next
      case False
      then obtain xs' p where xs: "xs = xs' @ [p]" by (metis rev_exhaust)
      have pM: "p \<in> ?M" using fl xs by simp
      have pb: "p \<noteq> b" using bx xs by auto
      have pt: "p \<noteq> t" using di fl xs hn by (cases ys) (auto simp: t_def hdp_def)
      note pp = nodes_okD[OF nk pM]
      have Bp: "RD64 s b = ptr p" using Bb xs by (simp add: lastp_def)
      from d1 have d0: "dll s NULL (list_root s) xs' (ptr p)"
        and Bpp: "RD64 s p = lastp NULL xs'" and Fp: "RD64 s (p + 8) = ptr b"
        unfolding xs dll_append by (simp_all add: hdp_def)
      have sep_pb: "p + 16 \<le> b \<or> b + 16 \<le> p" using nodes_ok_sep[OF nk pM bM pb] .
      have sep_pt: "p + 16 \<le> t \<or> t + 16 \<le> p" using nodes_ok_sep[OF nk pM tM pt] .
      define s1 where "s1 = WR64 (p + 8) (ptr t) s"
      define s2 where "s2 = WR64 t (ptr p) s1"
      have B1: "RD64 s1 b = ptr p"
        using sep_pb pp(2) bb(2) Bp by (elim disjE; simp add: s1_def node_frame)
      have eq: "?s' = s2" unfolding s2_def s1_def
        using Bp Fb pp tt B1[unfolded s1_def] by (intro delete_node_mid) auto
      have other: "RD64 s2 x = RD64 s x \<and> RD64 s2 (x + 8) = RD64 s (x + 8)"
        if x: "x \<in> set fl" "x \<noteq> t" "x \<noteq> p" for x
      proof -
        have xM: "x \<in> ?M" using x by simp
        have 1: "x + 16 \<le> t \<or> t + 16 \<le> x" using nodes_ok_sep[OF nk xM tM x(2)] .
        have 2: "x + 16 \<le> p \<or> p + 16 \<le> x" using nodes_ok_sep[OF nk xM pM x(3)] .
        show ?thesis using 1 2 nodes_okD(2)[OF nk xM] tt(2) pp(2)
          by (elim disjE; simp add: s2_def s1_def node_frame)
      qed
      have T: "dll s2 (ptr p) (ptr t) ys (ptr h)"
      proof (rule tail_frame[where q' = p])
        show "RD64 s2 t = ptr p" by (simp add: s2_def RD64_WR64_same)
      next
        fix x assume "x \<in> set fl" "x \<noteq> t" "x \<noteq> p"
        then show "RD64 s2 x = RD64 s x \<and> RD64 s2 (x + 8) = RD64 s (x + 8)" by (rule other)
      next
        show "RD64 s2 (t + 8) = RD64 s (t + 8)"
          using sep_pt pp(2) tt(2) by (elim disjE; simp add: s2_def s1_def node_frame own_frame)
      next
        show "p \<notin> set ys" using di fl xs by auto
      qed
      have P1: "RD64 s2 p = lastp NULL xs'"
        using sep_pt pp(2) tt(2) Bpp by (elim disjE; simp add: s2_def s1_def node_frame own_frame)
      have P2: "RD64 s2 (p + 8) = ptr t"
        using sep_pt pp(2) tt(2) by (elim disjE; simp add: s2_def s1_def node_frame RD64_WR64_same)
      have H: "dll s2 NULL (list_root s) xs' (ptr p) = dll s NULL (list_root s) xs' (ptr p)"
      proof (rule dll_cong)
        fix x assume "x \<in> set xs'"
        then have "x \<in> set fl" "x \<noteq> t" "x \<noteq> p" using di fl xs hn
          by (cases ys; auto simp: t_def hdp_def)+
        then show "RD64 s2 x = RD64 s x \<and> RD64 s2 (x + 8) = RD64 s (x + 8)" by (rule other)
      qed
      have "dll s2 NULL (list_root s) (xs' @ p # ys) (ptr h)"
        unfolding dll_append using H d0 P1 P2 T by (simp add: hdp_def)
      then have A: "dll s2 NULL (list_root s2) (remove1 b fl) (ptr h)"
        by (simp add: rm xs s2_def s1_def)
      have Bf: "GET s2 (ptr c) = GET s (ptr c)" if c: "clear ?M c" "c + 4 \<le> 2 ^ 64" for c
      proof -
        have cbc: "cb c" using c(2) by (simp add: cb_def)
        have 1: "c + 4 \<le> t \<or> t + 16 \<le> c" using clearD[OF c(1) tM] .
        have 2: "c + 4 \<le> p \<or> p + 16 \<le> c" using clearD[OF c(1) pM] .
        show ?thesis using 1 2 cbc tt(2) pp(2) by (elim disjE; simp add: s2_def s1_def cell_frame)
      qed
      have ph: "h + 16 \<le> p \<or> p + 16 \<le> h" using nodes_ok_sep[OF nk _ pM, of h] fl xs hn by auto
      have "RD64 s1 (h + 8) = RD64 s (h + 8)"
        using ph hh(2) pp(2) by (elim disjE; simp add: s1_def node_frame)
      then have Ch: "RD64 s2 (h + 8) = RD64 s (h + 8)" using th[of "ptr p" s1] by (simp add: s2_def)
      show ?goal unfolding eq using A Bf Ch by (simp add: s2_def s1_def)
    qed
    then show "dll ?s' NULL (list_root ?s') (remove1 b fl) (ptr h)"
      "\<And>c. clear ?M c \<Longrightarrow> c + 4 \<le> 2 ^ 64 \<Longrightarrow> GET ?s' (ptr c) = GET s (ptr c)"
      "mem_start_brk ?s' = mem_start_brk s" "mem_brk ?s' = mem_brk s"
      "mem_max_addr ?s' = mem_max_addr s" "heap_listp ?s' = heap_listp s"
      "RD64 ?s' (h + 8) = RD64 s (h + 8)"
      by blast+
  qed
qed

section \<open>The invariant\<close>

text \<open>
  With \<open>arena_start s\<close> the first address of the arena, the prologue block is at
  \<open>arena_start s + 8\<close> and the first block at \<open>first_block s\<close>, 48 bytes in. \<open>geo\<close> fixes
  the pointers of the state, \<open>ctx\<close> the tags around a range of blocks (the prologue
  header, the word before the first block, whose size bits are zero, the blocks before
  and after the range, and the epilogue header), \<open>linv\<close> the list: it runs from
  \<^verbatim>\<open>list_root\<close> through blocks of the layout and ends at the prologue, whose forward
  link is null. \<open>hinv\<close> is both.
\<close>

definition arena_start :: "heap \<Rightarrow> nat" where
  "arena_start s = unat (mem_start_brk s)"

definition first_block :: "heap \<Rightarrow> nat" where
  "first_block s = arena_start s + 48"

definition geo :: "heap \<Rightarrow> nat \<Rightarrow> bool" where
  "geo s E = (1 \<le> arena_start s \<and> heap_listp s = ptr (arena_start s + 8) \<and> mem_brk s = ptr E \<and>
     E \<le> unat (mem_max_addr s) \<and> unat (mem_max_addr s) < arena_start s + 2 ^ 32)"

definition ctx :: "heap \<Rightarrow> (nat \<times> bool) list \<Rightarrow> nat \<Rightarrow> (nat \<times> bool) list \<Rightarrow> bool" where
  "ctx s pre hi post = (GET s (ptr (arena_start s + 4)) = tag 24 True \<and> GET_SIZE s (ptr (arena_start s + 40)) = 0 \<and>
     tags_at s (first_block s) pre \<and> tags_at s hi post \<and> GET s (ptr (hi + total_size post - 4)) = tag 0 True \<and>
     sizes_ok pre \<and> sizes_ok post)"

definition linv :: "heap \<Rightarrow> (nat \<times> bool) list \<Rightarrow> nat list \<Rightarrow> bool" where
  "linv s bl fl = (geo s (first_block s + total_size bl) \<and> sizes_ok bl \<and> RD64 s (arena_start s + 16) = NULL \<and>
     dll s NULL (list_root s) fl (ptr (arena_start s + 8)) \<and> distinct fl \<and>
     set fl \<subseteq> set (starts (first_block s) bl))"

definition hinv :: "heap \<Rightarrow> (nat \<times> bool) list \<Rightarrow> nat list \<Rightarrow> bool" where
  "hinv s bl fl = (linv s bl fl \<and> ctx s [] (first_block s) bl)"

definition Mok :: "heap \<Rightarrow> nat set \<Rightarrow> (nat \<times> bool) list \<Rightarrow> nat \<Rightarrow> (nat \<times> bool) list \<Rightarrow> bool" where
  "Mok s M pre hi post = (\<forall>x\<in>M. x = arena_start s + 8 \<or> x \<in> set (starts (first_block s) pre) \<or>
     x \<in> set (starts hi post) \<or> (first_block s + total_size pre \<le> x \<and> x + 20 \<le> hi))"

definition frame :: "nat set \<Rightarrow> heap \<Rightarrow> heap \<Rightarrow> bool" where
  "frame M s s' = ((\<forall>c. clear M c \<longrightarrow> cb c \<longrightarrow> GET s' (ptr c) = GET s (ptr c)) \<and>
     mem_start_brk s' = mem_start_brk s \<and> mem_brk s' = mem_brk s \<and>
     mem_max_addr s' = mem_max_addr s \<and> heap_listp s' = heap_listp s)"

lemma unat_max_lt: "unat (mem_max_addr s) < 2 ^ 64"
  using unat64_lt[of "mem_max_addr s"] by simp

lemma geo_cb: "geo s E \<Longrightarrow> c + 4 \<le> E \<Longrightarrow> cb c"
  using unat_max_lt[of s] unfolding geo_def cb_def by linarith

lemma geo_nb: "geo s E \<Longrightarrow> x + 16 \<le> E \<Longrightarrow> nb x"
  using unat_max_lt[of s] unfolding geo_def nb_def by linarith

lemma geo_lt: "geo s E \<Longrightarrow> x \<le> E \<Longrightarrow> x < 2 ^ 64"
  using unat_max_lt[of s] unfolding geo_def by linarith

lemma geo_total: "geo s (first_block s + n) \<Longrightarrow> n < 2 ^ 32"
  unfolding geo_def first_block_def by linarith

lemma ctx_split:
  "ctx s [] (first_block s) (pre @ X @ post) =
     (ctx s pre (first_block s + total_size pre + total_size X) post \<and> tags_at s (first_block s + total_size pre) X \<and> sizes_ok X)"
  unfolding ctx_def by (auto simp: tags_at_append add.assoc)

text \<open>Reading a block through its tags.\<close>

lemma hdrp_ptr: "4 \<le> b \<Longrightarrow> HDRP (ptr b) = ptr (b - 4)"
  unfolding HDRP_def WSIZE_def using ptr_sub_numeral[of "num.Bit0 (num.Bit0 num.One)" b] by simp

lemma tag_reads:
  assumes "n < 2 ^ 32" "8 dvd n"
  shows "tag n al AND NOT 7 = of_nat n" "tag n al AND 1 = (if al then 1 else 0)"
    "(ucast (tag n al AND NOT 7) :: addr) = of_nat n"
  using assms by (simp_all only: tag_size tag_alloc ucast_of_nat_32_64)

lemma blk_reads:
  assumes g: "GET s (ptr (b - 4)) = tag n al" and n: "n < 2 ^ 32" "8 dvd n" and b: "4 \<le> b"
  shows "GET_SIZE s (HDRP (ptr b)) = of_nat n"
    and "GET_ALLOC s (HDRP (ptr b)) = (if al then 1 else 0)"
    and "NEXT_BLKP s (ptr b) = ptr (b + n)"
    and "8 \<le> b + n \<Longrightarrow> FTRP s (ptr b) = ptr (b + n - 8)"
    and "(ucast (GET_SIZE s (HDRP (ptr b))) :: addr) = of_nat n"
proof -
  have h: "HDRP (ptr b) = ptr (b - 4)" using b by (rule hdrp_ptr)
  show 1: "GET_SIZE s (HDRP (ptr b)) = of_nat n"
    unfolding GET_SIZE_def h g using n by (simp only: tag_reads)
  show "GET_ALLOC s (HDRP (ptr b)) = (if al then 1 else 0)"
    unfolding GET_ALLOC_def h g using n by (simp only: tag_reads)
  show 2: "(ucast (GET_SIZE s (HDRP (ptr b))) :: addr) = of_nat n"
    unfolding 1 using n by (simp only: ucast_of_nat_32_64)
  have 3: "GET_SIZE s (ptr b - WSIZE) = of_nat n" using 1 unfolding HDRP_def .
  show "NEXT_BLKP s (ptr b) = ptr (b + n)"
    unfolding NEXT_BLKP_def 3 using n by (simp only: ucast_of_nat_32_64 ptr_add)
  show "FTRP s (ptr b) = ptr (b + n - 8)" if "8 \<le> b + n"
    unfolding FTRP_def 2 DSIZE_def ptr_add
    using ptr_sub_numeral[of "num.Bit0 (num.Bit0 (num.Bit0 num.One))" "b + n"] that by simp
qed

lemma prev_reads:
  assumes g: "GET s (ptr (b - 8)) = tag np alp" and n: "np < 2 ^ 32" "8 dvd np" and b: "8 \<le> b" "np \<le> b"
  shows "PREV_BLKP s (ptr b) = ptr (b - np)"
proof -
  have h: "ptr b - DSIZE = ptr (b - 8)"
    unfolding DSIZE_def using ptr_sub_numeral[of "num.Bit0 (num.Bit0 (num.Bit0 num.One))" b] b by simp
  have 1: "GET_SIZE s (ptr (b - 8)) = of_nat np"
    unfolding GET_SIZE_def g using n by (simp only: tag_reads)
  have 2: "(ucast (of_nat np :: u32) :: addr) = of_nat np"
    using n by (simp only: ucast_of_nat_32_64)
  have 3: "ptr b - of_nat np = ptr (b - np)" using b(2) by (simp add: ptr_def)
  show ?thesis unfolding PREV_BLKP_def h 1 2 using 3 by (simp add: ptr_def)
qed

lemma prev_reads_gap:
  assumes g: "GET_SIZE s (ptr (b - 8)) = 0" and b: "8 \<le> b"
  shows "PREV_BLKP s (ptr b) = ptr b"
proof -
  have h: "ptr b - DSIZE = ptr (b - 8)"
    unfolding DSIZE_def using ptr_sub_numeral[of "num.Bit0 (num.Bit0 (num.Bit0 num.One))" b] b by simp
  show ?thesis unfolding PREV_BLKP_def h g by simp
qed

text \<open>The context of a range of blocks is kept by writes inside the range and by list operations.\<close>

lemma ctx_fields:
  "ctx s pre hi post \<Longrightarrow> mem_start_brk s' = mem_start_brk s \<Longrightarrow>
   GET s' (ptr (arena_start s + 4)) = GET s (ptr (arena_start s + 4)) \<Longrightarrow>
   GET s' (ptr (arena_start s + 40)) = GET s (ptr (arena_start s + 40)) \<Longrightarrow>
   GET s' (ptr (hi + total_size post - 4)) = GET s (ptr (hi + total_size post - 4)) \<Longrightarrow>
   tags_at s' (first_block s) pre = tags_at s (first_block s) pre \<Longrightarrow> tags_at s' hi post = tags_at s hi post \<Longrightarrow>
   ctx s' pre hi post"
  unfolding ctx_def arena_start_def first_block_def GET_SIZE_def by simp

lemma ctx_PUT:
  assumes c: "ctx s pre hi post" and g: "geo s (hi + total_size post)"
    and y: "first_block s + total_size pre \<le> y + 4" "y + 8 \<le> hi" and hi: "first_block s + total_size pre \<le> hi"
  shows "ctx (PUT (ptr y) v s) pre hi post"
proof (rule ctx_fields[OF c])
  have cby: "y + 4 \<le> 2 ^ 64" using geo_cb[OF g, of y] y by (simp add: cb_def)
  have lt: "hi + total_size post \<le> 2 ^ 64" using geo_lt[OF g, of "hi + total_size post"] by simp
  from c have ok: "sizes_ok pre" "sizes_ok post" unfolding ctx_def by auto
  show "mem_start_brk (PUT (ptr y) v s) = mem_start_brk s" by simp
  show "GET (PUT (ptr y) v s) (ptr (arena_start s + 4)) = GET s (ptr (arena_start s + 4))"
    using y cby by (intro GET_PUT_other) (auto simp: first_block_def)
  show "GET (PUT (ptr y) v s) (ptr (arena_start s + 40)) = GET s (ptr (arena_start s + 40))"
    using y cby by (intro GET_PUT_other) (auto simp: first_block_def)
  show "GET (PUT (ptr y) v s) (ptr (hi + total_size post - 4)) = GET s (ptr (hi + total_size post - 4))"
    using y cby lt by (intro GET_PUT_other) auto
  show "tags_at (PUT (ptr y) v s) (first_block s) pre = tags_at s (first_block s) pre"
    using y cby lt hi ok by (intro tags_at_PUT_outside) (auto simp: first_block_def)
  show "tags_at (PUT (ptr y) v s) hi post = tags_at s hi post"
    using y cby lt hi ok by (intro tags_at_PUT_outside) (auto simp: first_block_def)
qed

lemma ctx_frame:
  assumes c: "ctx s pre hi post" and g: "geo s (hi + total_size post)"
    and f: "frame M s s'" and M: "Mok s M pre hi post" and hi: "first_block s + total_size pre \<le> hi"
  shows "ctx s' pre hi post"
proof (rule ctx_fields[OF c])
  from f have fr: "\<And>c. clear M c \<Longrightarrow> c + 4 \<le> 2 ^ 64 \<Longrightarrow> GET s' (ptr c) = GET s (ptr c)"
    and sb: "mem_start_brk s' = mem_start_brk s" unfolding frame_def cb_def by auto
  have lt: "hi + total_size post \<le> 2 ^ 64" using geo_lt[OF g, of "hi + total_size post"] by simp
  from c have ok: "sizes_ok pre" "sizes_ok post" unfolding ctx_def by auto
  have cases: "x = arena_start s + 8 \<or> (first_block s \<le> x \<and> x + 24 \<le> first_block s + total_size pre)
      \<or> (hi \<le> x \<and> x + 24 \<le> hi + total_size post) \<or> (first_block s + total_size pre \<le> x \<and> x + 20 \<le> hi)"
    if "x \<in> M" for x
    using M that starts_bounds[OF ok(1), of x "first_block s"] starts_bounds[OF ok(2), of x hi]
    unfolding Mok_def by blast
  show "mem_start_brk s' = mem_start_brk s" by (rule sb)
  have "clear M (arena_start s + 4)" unfolding clear_def using cases hi by (fastforce simp: first_block_def)
  then show "GET s' (ptr (arena_start s + 4)) = GET s (ptr (arena_start s + 4))"
    using lt hi by (intro fr) (auto simp: first_block_def)
  have "clear M (arena_start s + 40)" unfolding clear_def using cases hi by (fastforce simp: first_block_def)
  then show "GET s' (ptr (arena_start s + 40)) = GET s (ptr (arena_start s + 40))"
    using lt hi by (intro fr) (auto simp: first_block_def)
  have "clear M (hi + total_size post - 4)" unfolding clear_def using cases hi by (fastforce simp: first_block_def)
  then show "GET s' (ptr (hi + total_size post - 4)) = GET s (ptr (hi + total_size post - 4))"
    using lt hi by (intro fr) (auto simp: first_block_def)
  show "tags_at s' (first_block s) pre = tags_at s (first_block s) pre"
  proof (rule tags_at_clear[OF ok(1) _ _ fr])
    show "4 \<le> first_block s" by (simp add: first_block_def)
    show "first_block s + total_size pre \<le> 2 ^ 64" using lt hi by simp
    show "\<forall>x\<in>M. x \<in> set (starts (first_block s) pre) \<or> x + 20 \<le> first_block s \<or> first_block s + total_size pre \<le> x + 4"
      using M starts_bounds[OF ok(2), of _ hi] hi unfolding Mok_def by (fastforce simp: first_block_def)
  qed
  show "tags_at s' hi post = tags_at s hi post"
  proof (rule tags_at_clear[OF ok(2) _ _ fr])
    show "4 \<le> hi" using hi by (simp add: first_block_def)
    show "hi + total_size post \<le> 2 ^ 64" by (rule lt)
    show "\<forall>x\<in>M. x \<in> set (starts hi post) \<or> x + 20 \<le> hi \<or> hi + total_size post \<le> x + 4"
      using M starts_bounds[OF ok(1), of _ "first_block s"] hi unfolding Mok_def by (fastforce simp: first_block_def)
  qed
qed


text \<open>The list part of the invariant.\<close>

lemma arena_start_PUT [simp]: "arena_start (PUT p v s) = arena_start s" "first_block (PUT p v s) = first_block s"
  by (simp_all add: arena_start_def first_block_def)

lemma frame_st: "frame M s s' \<Longrightarrow> arena_start s' = arena_start s" "frame M s s' \<Longrightarrow> first_block s' = first_block s"
  by (simp_all add: frame_def arena_start_def first_block_def)

lemma frameD: "frame M s s' \<Longrightarrow> clear M c \<Longrightarrow> cb c \<Longrightarrow> GET s' (ptr c) = GET s (ptr c)"
  by (simp add: frame_def)

lemma starts_sep:
  "sizes_ok bs \<Longrightarrow> x \<in> set (starts a bs) \<Longrightarrow> y \<in> set (starts a bs) \<Longrightarrow> x \<noteq> y \<Longrightarrow>
   x + 24 \<le> y \<or> y + 24 \<le> x"
proof (induction bs arbitrary: a)
  case Nil
  then show ?case by simp
next
  case (Cons p bs)
  obtain n al where p: "p = (n, al)" by (cases p)
  from Cons.prems have ok: "sizes_ok bs" "24 \<le> n" by (auto simp: p)
  show ?case
    using Cons.prems(2-4) Cons.IH[OF ok(1), of "a + n"] ok(2)
      starts_bounds[OF ok(1), of x "a + n"] starts_bounds[OF ok(1), of y "a + n"]
    by (auto simp: p)
qed

lemma nodes_ok_mono:
  assumes N: "nodes_ok N" and sub: "M \<subseteq> N"
  shows "nodes_ok M"
proof -
  from N have A: "\<forall>x\<in>N. 0 < x \<and> x + 16 \<le> 2 ^ 64"
    and B: "\<forall>x\<in>N. \<forall>y\<in>N. x = y \<or> x + 16 \<le> y \<or> y + 16 \<le> x"
    unfolding nodes_ok_def by (rule conjunct1, rule conjunct2)
  show ?thesis unfolding nodes_ok_def
  proof (intro conjI ballI)
    fix x assume "x \<in> M"
    then have x: "x \<in> N" using sub by (rule subsetD[rotated])
    show "0 < x" using bspec[OF A x] by (rule conjunct1)
    show "x + 16 \<le> 2 ^ 64" using bspec[OF A x] by (rule conjunct2)
  next
    fix x y assume "x \<in> M" "y \<in> M"
    then have x: "x \<in> N" and y: "y \<in> N" using sub by (auto dest: subsetD)
    show "x = y \<or> x + 16 \<le> y \<or> y + 16 \<le> x" using bspec[OF bspec[OF B x] y] .
  qed
qed

lemma nodes_ok_starts:
  assumes g: "geo s (first_block s + total_size bl)" and ok: "sizes_ok bl"
  shows "nodes_ok (insert (arena_start s + 8) (set (starts (first_block s) bl)))"
proof -
  have E: "first_block s + total_size bl \<le> 2 ^ 64" using geo_lt[OF g, of "first_block s + total_size bl"] by simp
  have b: "first_block s \<le> x \<and> x + 24 \<le> first_block s + total_size bl" if "x \<in> set (starts (first_block s) bl)" for x
    using starts_bounds[OF ok that] .
  show ?thesis unfolding nodes_ok_def
  proof (intro conjI ballI)
    fix x assume "x \<in> insert (arena_start s + 8) (set (starts (first_block s) bl))"
    then show "0 < x" "x + 16 \<le> 2 ^ 64" using b[of x] E by (auto simp: first_block_def)
  next
    fix x y
    assume "x \<in> insert (arena_start s + 8) (set (starts (first_block s) bl))"
      "y \<in> insert (arena_start s + 8) (set (starts (first_block s) bl))"
    then show "x = y \<or> x + 16 \<le> y \<or> y + 16 \<le> x"
      using b[of x] b[of y] starts_sep[OF ok, of x "first_block s" y] by (auto simp: first_block_def)
  qed
qed

lemma linv_nodes_ok:
  "linv s bl fl \<Longrightarrow> M \<subseteq> insert (arena_start s + 8) (set (starts (first_block s) bl)) \<Longrightarrow> nodes_ok M"
  unfolding linv_def using nodes_ok_mono[OF nodes_ok_starts, of s bl M] by simp

lemma linv_hl: "linv s bl fl \<Longrightarrow> arena_start s + 8 \<notin> set fl"
  unfolding linv_def using starts_bounds[of bl "arena_start s + 8" "first_block s"] by (auto simp: first_block_def)

lemma linv_relabel:
  "linv s bl fl \<Longrightarrow> sizes_ok bl' \<Longrightarrow> total_size bl' = total_size bl \<Longrightarrow>
   set fl \<subseteq> set (starts (first_block s) bl') \<Longrightarrow> linv s bl' fl"
  unfolding linv_def by simp

lemma geo_PUT [simp]: "geo (PUT p v s) E = geo s E"
  by (simp add: geo_def)

lemma linv_PUT:
  assumes l: "linv s bl fl" and c: "clear (insert (arena_start s + 8) (set fl)) y" and y: "cb y"
  shows "linv (PUT (ptr y) v s) bl fl"
proof -
  have nk: "nodes_ok (insert (arena_start s + 8) (set fl))"
    using linv_nodes_ok[OF l, of "insert (arena_start s + 8) (set fl)"] l unfolding linv_def by auto
  have 1: "RD64 (PUT (ptr y) v s) (arena_start s + 16) = RD64 s (arena_start s + 16)"
    using clearD[OF c, of "arena_start s + 8"] nodes_okD(2)[OF nk, of "arena_start s + 8"] y
    by (intro RD64_PUT_other) (auto simp: nb_def cb_def)
  have 2: "dll (PUT (ptr y) v s) p q fl e = dll s p q fl e" for p q e
  proof (rule dll_PUT)
    show "\<forall>x\<in>set fl. (y + 4 \<le> x \<or> x + 16 \<le> y) \<and> x + 16 \<le> 2 ^ 64"
    proof (intro ballI conjI)
      fix x assume x: "x \<in> set fl"
      show "y + 4 \<le> x \<or> x + 16 \<le> y" using clearD[OF c, of x] x by simp
      show "x + 16 \<le> 2 ^ 64" using nodes_okD(2)[OF nk, of x] x by (simp add: nb_def)
    qed
    show "y + 4 \<le> 2 ^ 64" using y by (simp add: cb_def)
  qed
  show ?thesis using l unfolding linv_def by (simp add: 1 2)
qed

lemma linv_add_node:
  assumes l: "linv s bl fl" and b: "b \<in> set (starts (first_block s) bl)" "b \<notin> set fl"
  shows "linv (add_node (ptr b) s) bl (b # fl)"
    and "frame (insert b (insert (arena_start s + 8) (set fl))) s (add_node (ptr b) s)"
proof -
  let ?h = "arena_start s + 8"
  let ?M = "insert b (insert ?h (set fl))"
  from l have d: "dll s NULL (list_root s) fl (ptr ?h)" and di: "distinct fl"
    and sub: "set fl \<subseteq> set (starts (first_block s) bl)" and g: "geo s (first_block s + total_size bl)"
    and ok: "sizes_ok bl" and z: "RD64 s (arena_start s + 16) = NULL"
    unfolding linv_def by auto
  have nk: "nodes_ok ?M" using linv_nodes_ok[OF l, of ?M] sub b by auto
  have bh: "b \<noteq> ?h" using starts_bounds[OF ok b(1)] by (simp add: first_block_def)
  note sp = add_node_spec[OF d nk b(2) bh di linv_hl[OF l]]
  have stq: "arena_start (add_node (ptr b) s) = arena_start s" "first_block (add_node (ptr b) s) = first_block s"
    using sp(3) by (simp_all add: arena_start_def first_block_def)
  have 8: "arena_start s + 8 + 8 = arena_start s + 16" by simp
  show "linv (add_node (ptr b) s) bl (b # fl)"
    unfolding linv_def stq geo_def using sp(1,3-6) sp(8)[unfolded 8] g ok z di sub b
    by (simp add: geo_def)
  show "frame ?M s (add_node (ptr b) s)"
    unfolding frame_def cb_def using sp(2-6) by simp
qed

lemma linv_delete_node:
  assumes l: "linv s bl fl" and b: "b \<in> set fl"
  shows "linv (delete_node (ptr b) s) bl (remove1 b fl)"
    and "frame (insert (arena_start s + 8) (set fl)) s (delete_node (ptr b) s)"
proof -
  let ?h = "arena_start s + 8"
  let ?M = "insert ?h (set fl)"
  from l have d: "dll s NULL (list_root s) fl (ptr ?h)" and di: "distinct fl"
    and sub: "set fl \<subseteq> set (starts (first_block s) bl)" and g: "geo s (first_block s + total_size bl)"
    and ok: "sizes_ok bl" and z: "RD64 s (arena_start s + 16) = NULL"
    unfolding linv_def by auto
  have nk: "nodes_ok ?M" using linv_nodes_ok[OF l, of ?M] sub by auto
  note sp = delete_node_spec[OF d nk b di linv_hl[OF l]]
  have stq: "arena_start (delete_node (ptr b) s) = arena_start s" "first_block (delete_node (ptr b) s) = first_block s"
    using sp(3) by (simp_all add: arena_start_def first_block_def)
  have 8: "arena_start s + 8 + 8 = arena_start s + 16" by simp
  have sub': "set (remove1 b fl) \<subseteq> set (starts (first_block s) bl)" using sub set_remove1_subset by fast
  show "linv (delete_node (ptr b) s) bl (remove1 b fl)"
    unfolding linv_def stq geo_def using sp(1,3-6) sp(7)[unfolded 8] g ok z di sub'
    by (simp add: geo_def)
  show "frame ?M s (delete_node (ptr b) s)"
    unfolding frame_def cb_def using sp(2-6) by simp
qed

lemma clear_layout:
  assumes ok: "sizes_ok (pre @ (N, al) # post)"
    and M: "M \<subseteq> insert (a - 40) (set (starts a (pre @ (N, al) # post)))" and a: "40 \<le> a"
    and c: "a + total_size pre \<le> c + 4" "c + 8 \<le> a + total_size pre + N"
    and own: "a + total_size pre \<notin> M \<or> c + 4 \<le> a + total_size pre \<or> a + total_size pre + 16 \<le> c"
  shows "clear M c"
  unfolding clear_def
proof
  fix x assume x: "x \<in> M"
  then have "x = a - 40 \<or> x \<in> set (starts a (pre @ (N, al) # post))" using M by auto
  then have "x = a - 40 \<or> x + 24 \<le> a + total_size pre \<or> x = a + total_size pre \<or> a + total_size pre + N \<le> x"
    using clear_start[OF ok, of x a] by blast
  then show "c + 4 \<le> x \<or> x + 16 \<le> c" using c own a x by auto
qed

lemma Mok_layout:
  assumes ok: "sizes_ok X"
    and M: "M \<subseteq> insert (arena_start s + 8) (set (starts (first_block s) (pre @ X @ post)))"
  shows "Mok s M pre (first_block s + total_size pre + total_size X) post"
  unfolding Mok_def
proof
  fix x assume "x \<in> M"
  then have "x = arena_start s + 8 \<or> x \<in> set (starts (first_block s) pre) \<or> x \<in> set (starts (first_block s + total_size pre) X)
     \<or> x \<in> set (starts (first_block s + total_size pre + total_size X) post)"
    using M by (auto simp: starts_append)
  then show "x = arena_start s + 8 \<or> x \<in> set (starts (first_block s) pre) \<or>
     x \<in> set (starts (first_block s + total_size pre + total_size X) post) \<or>
     (first_block s + total_size pre \<le> x \<and> x + 20 \<le> first_block s + total_size pre + total_size X)"
    using starts_bounds[OF ok, of x "first_block s + total_size pre"] by auto
qed

section \<open>Sizes in machine words\<close>

text \<open>
  The arithmetic of \<^verbatim>\<open>mm_malloc\<close>: the adjusted size is a multiple of eight of at least
  24 bytes, and a request of at most \<open>2^31 - 16\<close> bytes keeps every intermediate value
  within the C types that hold it.
\<close>

lemma and_not7: "(x :: addr) AND NOT 7 = push_bit 3 (drop_bit 3 x)"
proof -
  have "(7 :: addr) = mask 3" by (simp add: mask_eq_exp_minus_1)
  then show ?thesis by (auto simp: bit_eq_iff bit_simps)
qed

lemma align_unat: "unat ((x :: addr) AND NOT 7) = 8 * (unat x div 8)"
proof -
  have "unat (push_bit 3 (drop_bit 3 x)) = take_bit 64 (push_bit 3 (unat (drop_bit 3 x)))"
    by (simp add: unsigned_push_bit_eq)
  also have "\<dots> = take_bit 64 (8 * (unat x div 8))"
    by (simp add: unat_drop_bit_eq push_bit_eq_mult drop_bit_eq_div unat_div mult.commute)
  also have "\<dots> = 8 * (unat x div 8)"
  proof -
    have "8 * (unat x div 8) \<le> unat x" by simp
    then have "8 * (unat x div 8) < 18446744073709551616" using unat64_lt[of x] by linarith
    then have "8 * (unat x div 8) < 2 ^ 64" by simp
    then show ?thesis by (simp add: take_bit_nat_eq_self)
  qed
  finally show ?thesis by (simp only: and_not7)
qed

lemma unat_of_nat32: "x < 2 ^ 32 \<Longrightarrow> unat (of_nat x :: u32) = x"
  by (simp add: unat_of_nat)

lemma asize_facts:
  assumes sz: "unat (sz :: u32) + 16 \<le> 2 ^ 31"
  shows "\<exists>asz. (if ALIGN (ucast sz) + DSIZE < HEAP_SIZE then HEAP_SIZE
                 else ALIGN (ucast sz) + DSIZE :: addr) = of_nat asz
           \<and> 24 \<le> asz \<and> 8 dvd asz \<and> asz < 2 ^ 31"
proof -
  let ?k = "unat sz"
  have u: "unat (ucast sz + 7 :: addr) = ?k + 7"
    using sz by (simp add: unat_word_ariths unat_ucast_up)
  have a: "unat (ALIGN (ucast sz)) = 8 * ((?k + 7) div 8)"
    unfolding ALIGN_def ALIGNMENT_def using align_unat[of "ucast sz + 7"] u by simp
  have b: "unat (ALIGN (ucast sz) + DSIZE :: addr) = 8 * ((?k + 7) div 8) + 8"
    using sz a by (simp add: unat_word_ariths DSIZE_def)
  let ?A = "ALIGN (ucast sz) + DSIZE :: addr"
  have c: "(?A < HEAP_SIZE) = (unat ?A < 24)" by (simp add: word_less_nat_alt HEAP_SIZE_def)
  show ?thesis
  proof (cases "?A < HEAP_SIZE")
    case True
    then show ?thesis by (intro exI[of _ 24]) (simp add: HEAP_SIZE_def)
  next
    case False
    have "?A = of_nat (unat ?A)" by simp
    moreover have "24 \<le> unat ?A" using False c by simp
    moreover have "8 dvd unat ?A" unfolding b by simp
    moreover have "unat ?A < 2 ^ 31" unfolding b using sz by simp
    ultimately show ?thesis using False by (intro exI[of _ "unat ?A"]) simp
  qed
qed

lemma sint_of_nat32: "n < 2 ^ 31 \<Longrightarrow> sint (of_nat n :: u32) = int n"
  by (simp add: signed_of_nat signed_take_bit_int_eq_self)

lemma max_chunk:
  assumes "asz < 2 ^ 31"
  shows "MAX_int (of_nat asz) CHUNKSIZE = of_nat (max asz 4096)"
proof -
  have c: "(CHUNKSIZE :: u32) = of_nat 4096" by (simp add: CHUNKSIZE_def)
  have "sint (CHUNKSIZE :: u32) = 4096" unfolding c by (subst sint_of_nat32) simp_all
  then show ?thesis
    unfolding MAX_int_def word_sless_alt using sint_of_nat32[OF assms] c by (auto simp: max_def)
qed

lemma scast_of_nat32: "n < 2 ^ 31 \<Longrightarrow> (scast (of_nat n :: u32) :: addr) = of_nat n"
proof -
  assume n: "n < 2 ^ 31"
  have "(scast (of_nat n :: u32) :: addr) = of_int (sint (of_nat n :: u32))" by (rule scast_eq)
  also have "\<dots> = of_int (int n)" by (simp only: sint_of_nat32[OF n])
  also have "\<dots> = of_nat n" by simp
  finally show ?thesis .
qed

lemma words_of:
  assumes "8 dvd N" "N < 2 ^ 32"
  shows "(ucast ((of_nat N :: addr) div WSIZE) :: u32) = of_nat (N div 4)"
proof -
  have "N < 2 ^ 64" using assms(2) by (rule less_trans) simp
  then have "unat ((of_nat N :: addr) div WSIZE) = N div 4"
    by (simp add: unat_div WSIZE_def unat_of_nat64)
  then have "of_nat (unat ((of_nat N :: addr) div WSIZE)) = (of_nat (N div 4) :: addr)" by simp
  then have "(of_nat N :: addr) div WSIZE = of_nat (N div 4)" by simp
  then show ?thesis by (simp only: ucast_of_nat_64_32)
qed

lemma words_even:
  assumes "8 dvd N" "N < 2 ^ 32" "words = (of_nat (N div 4) :: u32)"
  shows "(ucast (if words mod 2 \<noteq> 0 then (words + 1) * WSIZE else words * WSIZE) :: addr) = of_nat N"
proof -
  obtain m where m: "N = 8 * m" using assms(1) by auto
  have d: "N div 4 = 2 * m" using m by simp
  have lt: "2 * m < 2 ^ 32" using assms(2) m by simp
  have w: "unat words = 2 * m" unfolding assms(3) d by (rule unat_of_nat32[OF lt])
  have "unat (words mod 2) = unat words mod unat (2 :: u32)" by (rule unat_mod)
  then have "unat (words mod 2) = 0" unfolding w by simp
  then have e: "words mod 2 = 0" by (simp add: unat_eq_0)
  have "words * WSIZE = of_nat N" unfolding assms(3) d m WSIZE_def by simp
  then show ?thesis using e ucast_of_nat_32_64[OF assms(2)] by simp
qed

section \<open>Coalescing keeps the invariant\<close>

text \<open>
  \<open>good\<close> adds to \<open>hinv\<close> that the members of the list are exactly the free blocks and
  that no two neighbours are both free. \<^verbatim>\<open>coalesce\<close> is called on a free block that is
  not yet in the list, with the rest of the heap in order; in each of its four cases it
  returns a free block at least as large, in a heap that is \<open>good\<close>.
\<close>

definition good :: "heap \<Rightarrow> (nat \<times> bool) list \<Rightarrow> nat list \<Rightarrow> bool" where
  "good s bl fl = (hinv s bl fl \<and> set fl = set (frees (first_block s) bl) \<and> no_adj bl)"

definition free_at :: "heap \<Rightarrow> nat \<Rightarrow> nat \<Rightarrow> bool" where
  "free_at s b n = (\<exists>pre n' post fl. good s (pre @ (n', False) # post) fl \<and>
     b = first_block s + total_size pre \<and> n \<le> n')"

lemma GET_PUT_o:
  "cb x \<Longrightarrow> cb y \<Longrightarrow> x + 4 \<le> y \<Longrightarrow> GET (PUT (ptr y) v s) (ptr x) = GET s (ptr x)"
  "cb x \<Longrightarrow> cb y \<Longrightarrow> y + 4 \<le> x \<Longrightarrow> GET (PUT (ptr y) v s) (ptr x) = GET s (ptr x)"
  unfolding cb_def by (auto intro!: GET_PUT_other)

lemma frees_bounds: "sizes_ok bs \<Longrightarrow> x \<in> set (frees a bs) \<Longrightarrow> a \<le> x \<and> x + 24 \<le> a + total_size bs"
  using starts_bounds[of bs x a] frees_in_starts[of x a bs] by blast

lemma no_adj_Cons:
  "no_adj ((n, al) # ys) = (no_adj ys \<and> (ys = [] \<or> al \<or> snd (hd ys)))"
  by (cases ys) auto

lemma no_adj_append:
  "no_adj (xs @ (n, al) # ys) =
     (no_adj xs \<and> no_adj ys \<and> (xs = [] \<or> snd (last xs) \<or> al) \<and> (ys = [] \<or> al \<or> snd (hd ys)))"
proof (induction xs rule: no_adj.induct)
  case 1
  show ?case by (simp add: no_adj_Cons)
next
  case (2 b)
  show ?case by (cases b) (auto simp: no_adj_Cons)
next
  case (3 n' al' m am bs)
  then show ?case by auto
qed

lemma hinv_add_node:
  assumes h: "hinv s bl fl" and b: "b \<in> set (starts (first_block s) bl)" "b \<notin> set fl"
  shows "hinv (add_node (ptr b) s) bl (b # fl)"
    and "frame (insert b (insert (arena_start s + 8) (set fl))) s (add_node (ptr b) s)"
proof -
  let ?M = "insert b (insert (arena_start s + 8) (set fl))"
  let ?s' = "add_node (ptr b) s"
  from h have l: "linv s bl fl" and c: "ctx s [] (first_block s) bl" unfolding hinv_def by auto
  from l have g: "geo s (first_block s + total_size bl)" and sub: "set fl \<subseteq> set (starts (first_block s) bl)"
    unfolding linv_def by auto
  note la = linv_add_node[OF l b]
  show fr: "frame ?M s ?s'" by (rule la(2))
  have M: "Mok s ?M [] (first_block s + total_size [] + total_size []) bl"
    using sub b by (intro Mok_layout) auto
  have "ctx ?s' [] (first_block s) bl"
    using ctx_frame[OF c g fr] M by simp
  then show "hinv ?s' bl (b # fl)" unfolding hinv_def using la(1) frame_st(2)[OF fr] by simp
qed

lemma hinv_delete_node:
  assumes h: "hinv s bl fl" and b: "b \<in> set fl"
  shows "hinv (delete_node (ptr b) s) bl (remove1 b fl)"
    and "frame (insert (arena_start s + 8) (set fl)) s (delete_node (ptr b) s)"
proof -
  let ?M = "insert (arena_start s + 8) (set fl)"
  let ?s' = "delete_node (ptr b) s"
  from h have l: "linv s bl fl" and c: "ctx s [] (first_block s) bl" unfolding hinv_def by auto
  from l have g: "geo s (first_block s + total_size bl)" and sub: "set fl \<subseteq> set (starts (first_block s) bl)"
    unfolding linv_def by auto
  note la = linv_delete_node[OF l b]
  show fr: "frame ?M s ?s'" by (rule la(2))
  have M: "Mok s ?M [] (first_block s + total_size [] + total_size []) bl"
    using sub b by (intro Mok_layout) auto
  have "ctx ?s' [] (first_block s) bl"
    using ctx_frame[OF c g fr] M by simp
  then show "hinv ?s' bl (remove1 b fl)" unfolding hinv_def using la(1) frame_st(2)[OF fr] by simp
qed

lemma hinv_retag:
  assumes h: "hinv s (pre @ X @ post) fl" and N: "N = total_size X" "24 \<le> N" "8 dvd N"
    and lo: "lo = first_block s + total_size pre"
    and sub: "set fl \<subseteq> set (starts (first_block s) (pre @ (N, al) # post))"
  shows "hinv (PUT (ptr (lo + N - 8)) (tag N al) (PUT (ptr (lo - 4)) (tag N al) s))
           (pre @ (N, al) # post) fl"
proof -
  let ?bl = "pre @ X @ post" and ?bl' = "pre @ (N, al) # post"
  let ?s1 = "PUT (ptr (lo - 4)) (tag N al) s"
  let ?s2 = "PUT (ptr (lo + N - 8)) (tag N al) ?s1"
  let ?M = "insert (arena_start s + 8) (set fl)"
  from h have l: "linv s ?bl fl" and c: "ctx s [] (first_block s) ?bl" unfolding hinv_def by auto
  from l have g: "geo s (first_block s + total_size ?bl)" and ok: "sizes_ok ?bl" unfolding linv_def by auto
  have ok': "sizes_ok ?bl'" using ok N by simp
  have tot: "total_size ?bl' = total_size ?bl" using N by simp
  have l0: "linv s ?bl' fl" using linv_relabel[OF l ok' tot sub] .
  have E: "lo + N \<le> first_block s + total_size ?bl" using N lo by simp
  have cb1: "cb (lo - 4)" using geo_cb[OF g, of "lo - 4"] E N by simp
  have cb2: "cb (lo + N - 8)" using geo_cb[OF g, of "lo + N - 8"] E N by simp
  have a40: "first_block s - 40 = arena_start s + 8" "40 \<le> first_block s" by (simp_all add: first_block_def)
  have M: "?M \<subseteq> insert (first_block s - 40) (set (starts (first_block s) ?bl'))" using sub a40 by auto
  have c1: "clear ?M (lo - 4)"
    using N lo a40 by (intro clear_layout[OF ok' M]) auto
  have c2: "clear ?M (lo + N - 8)"
    using N lo a40 by (intro clear_layout[OF ok' M]) auto
  have l1: "linv ?s1 ?bl' fl" using linv_PUT[OF l0 c1 cb1] .
  have l2: "linv ?s2 ?bl' fl" using linv_PUT[OF l1 _ cb2] c2 by simp
  from c have cx: "ctx s pre (lo + N) post"
    using ctx_split[of s pre X post] N lo by simp
  have g': "geo s (lo + N + total_size post)" using g N lo by (simp add: add.assoc)
  have cx1: "ctx ?s1 pre (lo + N) post"
    using N lo by (intro ctx_PUT[OF cx g']) auto
  have cx2: "ctx ?s2 pre (lo + N) post"
    using N lo g' by (intro ctx_PUT[OF cx1]) auto
  have lo4: "4 \<le> lo" using lo by (simp add: first_block_def)
  have t1: "GET ?s2 (ptr (lo + N - 8)) = tag N al" by (rule GET_PUT_same)
  have t2: "GET ?s2 (ptr (lo - 4)) = tag N al"
  proof -
    have "lo - 4 + 4 \<le> lo + N - 8" using N lo4 by simp
    then have "GET ?s2 (ptr (lo - 4)) = GET ?s1 (ptr (lo - 4))" using cb1 cb2 by (rule GET_PUT_o(1)[rotated 2])
    then show ?thesis by (simp add: GET_PUT_same)
  qed
  have "ctx ?s2 [] (first_block s) ?bl'"
    using ctx_split[of ?s2 pre "[(N, al)]" post] cx2 t1 t2 N lo by simp
  then show ?thesis unfolding hinv_def using l2 by simp
qed

text \<open>The four cases of \<^verbatim>\<open>coalesce\<close>.\<close>

lemma coalesce_c4:
  assumes "GET_ALLOC s (FTRP s (PREV_BLKP s bp)) \<noteq> 0 \<or> PREV_BLKP s bp = bp"
    and "GET_ALLOC s (HDRP (NEXT_BLKP s bp)) \<noteq> 0"
  shows "coalesce bp s = (bp, add_node bp s)"
  using assms unfolding coalesce_def Let_def by simp

lemma coalesce_c1:
  assumes "GET_ALLOC s (FTRP s (PREV_BLKP s bp)) \<noteq> 0 \<or> PREV_BLKP s bp = bp"
    and "GET_ALLOC s (HDRP (NEXT_BLKP s bp)) = 0"
    and "NEXT_BLKP s bp = nx"
    and "PACK (ucast ((ucast (GET_SIZE s (HDRP bp)) :: addr) + ucast (GET_SIZE s (HDRP nx)))) 0 = t"
    and "delete_node nx s = s1"
    and "PUT (HDRP bp) t s1 = s2"
    and "PUT (FTRP s2 bp) t s2 = s3"
  shows "coalesce bp s = (bp, add_node bp s3)"
  using assms unfolding coalesce_def Let_def by simp

lemma coalesce_c2:
  assumes "\<not> (GET_ALLOC s (FTRP s (PREV_BLKP s bp)) \<noteq> 0 \<or> PREV_BLKP s bp = bp)"
    and "GET_ALLOC s (HDRP (NEXT_BLKP s bp)) \<noteq> 0"
    and "PREV_BLKP s bp = pv"
    and "PACK (ucast ((ucast (GET_SIZE s (HDRP bp)) :: addr) + ucast (GET_SIZE s (HDRP pv)))) 0 = t"
    and "PUT (HDRP pv) t s = s1"
    and "PREV_BLKP s1 bp = pv"
    and "PUT (FTRP s1 pv) t s1 = s2"
    and "PREV_BLKP s2 bp = pv"
    and "delete_node pv s2 = s3"
    and "PREV_BLKP s3 bp = pv"
  shows "coalesce bp s = (pv, add_node pv s3)"
  using assms unfolding coalesce_def Let_def by simp

lemma coalesce_c3:
  assumes "\<not> (GET_ALLOC s (FTRP s (PREV_BLKP s bp)) \<noteq> 0 \<or> PREV_BLKP s bp = bp)"
    and "GET_ALLOC s (HDRP (NEXT_BLKP s bp)) = 0"
    and "PREV_BLKP s bp = pv" and "NEXT_BLKP s bp = nx"
    and "PACK (ucast ((ucast (GET_SIZE s (HDRP bp)) :: addr)
           + ucast (GET_SIZE s (HDRP pv) + GET_SIZE s (HDRP nx)))) 0 = t"
    and "delete_node pv s = s1"
    and "NEXT_BLKP s1 bp = nx"
    and "delete_node nx s1 = s2"
    and "PREV_BLKP s2 bp = pv"
    and "PUT (HDRP pv) t s2 = s3"
    and "PREV_BLKP s3 bp = pv"
    and "PUT (FTRP s3 pv) t s3 = s4"
    and "PREV_BLKP s4 bp = pv"
  shows "coalesce bp s = (pv, add_node pv s4)"
  using assms unfolding coalesce_def Let_def by simp

lemma tag_PACK: "PACK (of_nat N) 0 = tag N False" "PACK (of_nat N) 1 = tag N True"
  by (simp_all add: tag_def)

lemma hinvD:
  assumes "hinv s bl fl"
  shows "linv s bl fl" "ctx s [] (first_block s) bl" "geo s (first_block s + total_size bl)" "sizes_ok bl"
    "distinct fl" "set fl \<subseteq> set (starts (first_block s) bl)" "total_size bl < 2 ^ 32"
  using assms geo_total[of s "total_size bl"] unfolding hinv_def linv_def by auto

lemma block_facts:
  assumes h: "hinv s (pre @ (n, al) # post) fl" and b: "b = first_block s + total_size pre"
  shows "GET s (ptr (b - 4)) = tag n al" and "GET s (ptr (b + n - 8)) = tag n al"
    and "n < 2 ^ 32" and "24 \<le> n" and "8 dvd n" and "48 \<le> b" and "b + n < 2 ^ 64"
    and "b \<in> set (starts (first_block s) (pre @ (n, al) # post))"
    and "ctx s pre (b + n) post"
    and "cb (b - 4)" and "cb (b + n - 8)" and "cb (b + n - 4)"
proof -
  note d = hinvD[OF h]
  show "GET s (ptr (b - 4)) = tag n al" "GET s (ptr (b + n - 8)) = tag n al" "ctx s pre (b + n) post"
    using d(2) ctx_split[of s pre "[(n, al)]" post] b by simp_all
  show "n < 2 ^ 32" using d(7) by simp
  show n: "24 \<le> n" "8 dvd n" using d(4) by simp_all
  show "48 \<le> b" using b by (simp add: first_block_def)
  show "b + n < 2 ^ 64" using geo_lt[OF d(3), of "b + n"] b by simp
  show "b \<in> set (starts (first_block s) (pre @ (n, al) # post))" using b by (simp add: starts_append)
  show "cb (b - 4)" using geo_cb[OF d(3), of "b - 4"] b n by simp
  show "cb (b + n - 8)" using geo_cb[OF d(3), of "b + n - 8"] b n by simp
  show "cb (b + n - 4)" using geo_cb[OF d(3), of "b + n - 4"] b n by simp
qed

lemma block_reads:
  assumes h: "hinv s (pre @ (n, al) # post) fl" and b: "b = first_block s + total_size pre"
  shows "HDRP (ptr b) = ptr (b - 4)"
    and "GET_SIZE s (HDRP (ptr b)) = of_nat n"
    and "GET_ALLOC s (HDRP (ptr b)) = (if al then 1 else 0)"
    and "NEXT_BLKP s (ptr b) = ptr (b + n)"
    and "FTRP s (ptr b) = ptr (b + n - 8)"
    and "(ucast (GET_SIZE s (HDRP (ptr b))) :: addr) = of_nat n"
proof -
  note f = block_facts[OF h b]
  have b4: "4 \<le> b" "8 \<le> b + n" using f(6) by simp_all
  note r = blk_reads[OF f(1) f(3) f(5) b4(1)]
  show "HDRP (ptr b) = ptr (b - 4)" using b4 by (simp add: hdrp_ptr)
  show "GET_SIZE s (HDRP (ptr b)) = of_nat n" by (rule r(1))
  show "GET_ALLOC s (HDRP (ptr b)) = (if al then 1 else 0)" by (rule r(2))
  show "NEXT_BLKP s (ptr b) = ptr (b + n)" by (rule r(3))
  show "FTRP s (ptr b) = ptr (b + n - 8)" by (rule r(4)[OF b4(2)])
  show "(ucast (GET_SIZE s (HDRP (ptr b))) :: addr) = of_nat n" by (rule r(5))
qed

lemma next_alloc:
  assumes h: "hinv s (pre @ (n, al) # post) fl" and b: "b = first_block s + total_size pre"
  shows "(GET_ALLOC s (HDRP (ptr (b + n))) \<noteq> 0) = (post = [] \<or> snd (hd post))"
proof (cases post)
  case Nil
  note f = block_facts[OF h b]
  have "GET s (ptr (b + n - 4)) = tag 0 True" using f(9) unfolding ctx_def Nil by simp
  then have "GET_ALLOC s (HDRP (ptr (b + n))) = 1"
    using blk_reads(2)[of s "b + n" 0 True] f(6) by simp
  then show ?thesis using Nil by simp
next
  case (Cons p post0)
  obtain nn aln where p: "p = (nn, aln)" by (cases p)
  have h': "hinv s ((pre @ [(n, al)]) @ (nn, aln) # post0) fl" using h Cons p by simp
  have "GET_ALLOC s (HDRP (ptr (b + n))) = (if aln then 1 else 0)"
    using block_reads(3)[OF h', of "b + n"] b by simp
  then show ?thesis using Cons p by simp
qed

lemma prev_alloc:
  assumes h: "hinv s (pre @ (n, al) # post) fl" and b: "b = first_block s + total_size pre"
  shows "(GET_ALLOC s (FTRP s (PREV_BLKP s (ptr b))) \<noteq> 0 \<or> PREV_BLKP s (ptr b) = ptr b)
           = (pre = [] \<or> snd (last pre))"
    and "pre = pre0 @ [(np, alp)] \<Longrightarrow> PREV_BLKP s (ptr b) = ptr (b - np)"
    and "pre = pre0 @ [(np, alp)] \<Longrightarrow> GET s (ptr (b - 8)) = tag np alp"
proof -
  note f = block_facts[OF h b]
  have A: "PREV_BLKP s (ptr b) = ptr (b - np) \<and> GET s (ptr (b - 8)) = tag np alp
      \<and> GET_ALLOC s (FTRP s (ptr (b - np))) = (if alp then 1 else 0) \<and> ptr (b - np) \<noteq> ptr b"
    if pre: "pre = pre0 @ [(np, alp)]" for pre0 np alp
  proof -
    have h': "hinv s (pre0 @ (np, alp) # (n, al) # post) fl" using h pre by simp
    have b': "b - np = first_block s + total_size pre0" "np \<le> b" "b = b - np + np" using b pre by simp_all
    note f' = block_facts[OF h' b'(1)]
    note r' = block_reads[OF h' b'(1)]
    have ft: "GET s (ptr (b - 8)) = tag np alp" using f'(2) b'(3) by simp
    have 1: "PREV_BLKP s (ptr b) = ptr (b - np)"
      using f(6) b'(2) by (intro prev_reads[OF ft f'(3) f'(5)]) simp_all
    have 2: "FTRP s (ptr (b - np)) = ptr (b - 8)" using r'(5) b'(3) by simp
    have 3: "GET_ALLOC s (ptr (b - 8)) = (if alp then 1 else 0)"
      unfolding GET_ALLOC_def ft using f'(3) f'(5) by (simp only: tag_reads)
    have lt: "b < 2 ^ 64" "b - np < 2 ^ 64" using f(7) by simp_all
    have 4: "ptr (b - np) \<noteq> ptr b" using ptr_inj[OF lt(2) lt(1)] f'(4) b'(2) by simp
    show ?thesis using 1 2 3 4 ft by simp
  qed
  show "pre = pre0 @ [(np, alp)] \<Longrightarrow> PREV_BLKP s (ptr b) = ptr (b - np)" using A by blast
  show "pre = pre0 @ [(np, alp)] \<Longrightarrow> GET s (ptr (b - 8)) = tag np alp" using A by blast
  show "(GET_ALLOC s (FTRP s (PREV_BLKP s (ptr b))) \<noteq> 0 \<or> PREV_BLKP s (ptr b) = ptr b)
           = (pre = [] \<or> snd (last pre))"
  proof (cases pre rule: rev_cases)
    case Nil
    have "GET_SIZE s (ptr (arena_start s + 40)) = 0" using f(9) unfolding ctx_def by simp
    moreover have "b - 8 = arena_start s + 40" using b Nil by (simp add: first_block_def)
    ultimately have "GET_SIZE s (ptr (b - 8)) = 0" by simp
    then have "PREV_BLKP s (ptr b) = ptr b" using f(6) by (intro prev_reads_gap) simp_all
    then show ?thesis using Nil by simp
  next
    case (snoc pre0 p)
    obtain np alp where p: "p = (np, alp)" by (cases p)
    show ?thesis using A[of pre0 np alp] snoc p by simp
  qed
qed

lemma good_frees_set:
  assumes ok: "sizes_ok (pre @ (n, al) # post)"
  shows "a + total_size pre \<notin> set (frees a pre)"
    and "a + total_size pre \<notin> set (frees (a + total_size pre + n) post)"
    and "a + total_size pre \<notin> set (starts a pre)"
    and "a + total_size pre \<notin> set (starts (a + total_size pre + n) post)"
  using ok frees_bounds[of pre "a + total_size pre" a] frees_bounds[of post "a + total_size pre" "a + total_size pre + n"]
    starts_bounds[of pre "a + total_size pre" a] starts_bounds[of post "a + total_size pre" "a + total_size pre + n"]
  by auto

lemma free_atI:
  "good s (pre @ (n', False) # post) fl \<Longrightarrow> b = first_block s + total_size pre \<Longrightarrow> n \<le> n' \<Longrightarrow> free_at s b n"
  unfolding free_at_def by blast

lemma coalesce_case4:
  assumes h: "hinv s (pre @ (n, False) # post) fl"
    and b: "b = first_block s + total_size pre" and bf: "b \<notin> set fl"
    and fs: "set fl = set (frees (first_block s) (pre @ (n, False) # post)) - {b}"
    and na: "no_adj pre" "no_adj post"
    and pa: "pre = [] \<or> snd (last pre)" and nxa: "post = [] \<or> snd (hd post)"
  shows "\<exists>b' s'. coalesce (ptr b) s = (ptr b', s') \<and> free_at s' b' n"
proof -
  let ?bl = "pre @ (n, False) # post"
  let ?s' = "add_node (ptr b) s"
  note f = block_facts[OF h b]
  note r = block_reads[OF h b]
  have eq: "coalesce (ptr b) s = (ptr b, ?s')"
    using prev_alloc(1)[OF h b] next_alloc[OF h b] pa nxa
    by (intro coalesce_c4) (simp_all add: r(4))
  note ha = hinv_add_node[OF h f(8) bf]
  have first_block': "first_block ?s' = first_block s" by (rule frame_st(2)[OF ha(2)])
  have "set (b # fl) = set (frees (first_block s) ?bl)" using fs b by (auto simp: frees_append)
  moreover have "no_adj ?bl" using na pa nxa by (simp add: no_adj_append)
  ultimately have "good ?s' ?bl (b # fl)" unfolding good_def using ha(1) first_block' by simp
  then have "free_at ?s' b n" using b first_block' by (intro free_atI[of ?s' pre n post "b # fl"]) simp_all
  then show ?thesis using eq by blast
qed

lemma cb_le: "cb c \<Longrightarrow> c' \<le> c \<Longrightarrow> cb c'"
  unfolding cb_def by simp

lemma size_sum2:
  "PACK (ucast ((of_nat n :: addr) + of_nat m)) 0 = tag (n + m) False"
  by (simp only: of_nat_add[symmetric] ucast_of_nat_64_32 tag_PACK)

lemma coalesce_case1:
  assumes h: "hinv s (pre @ (n, False) # (nn, False) # post0) fl"
    and b: "b = first_block s + total_size pre" and bf: "b \<notin> set fl"
    and fs: "set fl = set (frees (first_block s) (pre @ (n, False) # (nn, False) # post0)) - {b}"
    and na: "no_adj pre" "no_adj ((nn, False) # post0)"
    and pa: "pre = [] \<or> snd (last pre)"
  shows "\<exists>b' s'. coalesce (ptr b) s = (ptr b', s') \<and> free_at s' b' n"
proof -
  let ?bl = "pre @ (n, False) # (nn, False) # post0"
  let ?N = "n + nn"
  let ?bl' = "pre @ (?N, False) # post0"
  let ?fl1 = "remove1 (b + n) fl"
  define s1 where "s1 = delete_node (ptr (b + n)) s"
  define s2 where "s2 = PUT (ptr (b - 4)) (tag ?N False) s1"
  define s3 where "s3 = PUT (ptr (b + ?N - 8)) (tag ?N False) s2"
  note f = block_facts[OF h b]
  note r = block_reads[OF h b]
  have h': "hinv s ((pre @ [(n, False)]) @ (nn, False) # post0) fl" using h by simp
  have b': "b + n = first_block s + total_size (pre @ [(n, False)])" using b by simp
  note f' = block_facts[OF h' b']
  note r' = block_reads[OF h' b']
  note d = hinvD[OF h]
  have okp: "sizes_ok pre" "sizes_ok post0" using d(4) by simp_all
  have nxf: "b + n \<in> set fl" using fs b f(4) by (auto simp: frees_append)
  note hd = hinv_delete_node[OF h nxf, folded s1_def]
  have a1: "first_block s1 = first_block s" by (rule frame_st(2)[OF hd(2)])
  have fl1: "set ?fl1 = set fl - {b + n}" using d(5) by simp
  have fl1': "set ?fl1 = set (frees (first_block s) pre) \<union> set (frees (first_block s + total_size pre + n + nn) post0)"
    unfolding fl1 fs using b f(4) f'(4)
    by (auto simp: frees_append add.assoc dest: frees_bounds[OF okp(1)] frees_bounds[OF okp(2)])
  have sub: "set ?fl1 \<subseteq> set (starts (first_block s1) ?bl')"
    unfolding fl1' a1 using frees_subset by (auto simp: starts_append add.assoc dest: frees_in_starts)
  have Nt: "?N < 2 ^ 32" "8 dvd ?N" using d(7) f(5) f'(5) by simp_all
  have hr: "hinv s3 ?bl' ?fl1"
    unfolding s3_def s2_def
  proof (rule hinv_retag[where X = "[(n, False), (nn, False)]"])
    show "hinv s1 (pre @ [(n, False), (nn, False)] @ post0) ?fl1" using hd(1) by simp
    show "?N = total_size [(n, False), (nn, False)]" by simp
    show "24 \<le> ?N" using f(4) by simp
    show "8 dvd ?N" by (rule Nt(2))
    show "b = first_block s1 + total_size pre" using b a1 by simp
    show "set ?fl1 \<subseteq> set (starts (first_block s1) ?bl')" by (rule sub)
  qed
  have a3: "first_block s3 = first_block s" unfolding s3_def s2_def using a1 by simp
  have eq: "coalesce (ptr b) s = (ptr b, add_node (ptr b) s3)"
  proof (rule coalesce_c1[where nx = "ptr (b + n)" and t = "tag ?N False" and ?s1.0 = s1 and ?s2.0 = s2])
    show "GET_ALLOC s (FTRP s (PREV_BLKP s (ptr b))) \<noteq> 0 \<or> PREV_BLKP s (ptr b) = ptr b"
      using prev_alloc(1)[OF h b] pa by simp
    show "GET_ALLOC s (HDRP (NEXT_BLKP s (ptr b))) = 0" unfolding r(4) using r'(3) by simp
    show "NEXT_BLKP s (ptr b) = ptr (b + n)" by (rule r(4))
    show "PACK (ucast ((ucast (GET_SIZE s (HDRP (ptr b))) :: addr)
        + ucast (GET_SIZE s (HDRP (ptr (b + n)))))) 0 = tag ?N False"
      unfolding r(6) r'(6) by (rule size_sum2)
    show "delete_node (ptr (b + n)) s = s1" by (simp add: s1_def)
    show "PUT (HDRP (ptr b)) (tag ?N False) s1 = s2" unfolding r(1) s2_def ..
    have "GET s2 (ptr (b - 4)) = tag ?N False" unfolding s2_def by (rule GET_PUT_same)
    then have "FTRP s2 (ptr b) = ptr (b + ?N - 8)"
      using f(6) by (intro blk_reads(4)[OF _ Nt]) simp_all
    then show "PUT (FTRP s2 (ptr b)) (tag ?N False) s2 = s3" unfolding s3_def by simp
  qed
  have bs: "b \<in> set (starts (first_block s3) ?bl')" unfolding a3 using b by (simp add: starts_append)
  have bn: "b \<notin> set ?fl1" using bf fl1 by simp
  note ha = hinv_add_node[OF hr bs bn]
  let ?s' = "add_node (ptr b) s3"
  have first_block': "first_block ?s' = first_block s" using frame_st(2)[OF ha(2)] a3 by simp
  have "set (b # ?fl1) = set (frees (first_block s) ?bl')"
    unfolding list.set fl1' using b by (auto simp: frees_append add.assoc)
  moreover have "no_adj ?bl'" using na pa by (simp add: no_adj_append no_adj_Cons)
  ultimately have "good ?s' ?bl' (b # ?fl1)" unfolding good_def using ha(1) first_block' by simp
  then have "free_at ?s' b n" using b first_block' by (intro free_atI[of ?s' pre ?N post0 "b # ?fl1"]) simp_all
  then show ?thesis using eq by blast
qed

lemma coalesce_case2:
  assumes h: "hinv s (pre0 @ (np, False) # (n, False) # post) fl"
    and pv: "pv = first_block s + total_size pre0" and bf: "pv + np \<notin> set fl"
    and fs: "set fl = set (frees (first_block s) (pre0 @ (np, False) # (n, False) # post)) - {pv + np}"
    and na: "no_adj (pre0 @ [(np, False)])" "no_adj post"
    and nxa: "post = [] \<or> snd (hd post)"
  shows "\<exists>b' s'. coalesce (ptr (pv + np)) s = (ptr b', s') \<and> free_at s' b' n"
proof -
  let ?b = "pv + np"
  let ?N = "np + n"
  let ?bl' = "pre0 @ (?N, False) # post"
  let ?fl3 = "remove1 pv fl"
  define s1 where "s1 = PUT (ptr (pv - 4)) (tag ?N False) s"
  define s2 where "s2 = PUT (ptr (pv + ?N - 8)) (tag ?N False) s1"
  define s3 where "s3 = delete_node (ptr pv) s2"
  have h': "hinv s ((pre0 @ [(np, False)]) @ (n, False) # post) fl" using h by simp
  have b': "?b = first_block s + total_size (pre0 @ [(np, False)])" using pv by simp
  note f = block_facts[OF h' b']
  note r = block_reads[OF h' b']
  note fp = block_facts[OF h pv]
  note rp = block_reads[OF h pv]
  note d = hinvD[OF h]
  have okp: "sizes_ok pre0" "sizes_ok post" using d(4) by simp_all
  have pvf: "pv \<in> set fl" using fs pv fp(4) by (auto simp: frees_append)
  have fl': "set fl = insert pv (set (frees (first_block s) pre0) \<union> set (frees (first_block s + total_size pre0 + np + n) post))"
    unfolding fs using pv f(4) fp(4)
    by (auto simp: frees_append add.assoc dest: frees_bounds[OF okp(1)] frees_bounds[OF okp(2)])
  have sub: "set fl \<subseteq> set (starts (first_block s) ?bl')"
    unfolding fl' using pv by (auto simp: starts_append add.assoc dest: frees_in_starts)
  have Nt: "?N < 2 ^ 32" "8 dvd ?N" using d(7) f(5) fp(5) by simp_all
  have hr: "hinv s2 ?bl' fl"
    unfolding s2_def s1_def
  proof (rule hinv_retag[where X = "[(np, False), (n, False)]"])
    show "hinv s (pre0 @ [(np, False), (n, False)] @ post) fl" using h by simp
    show "?N = total_size [(np, False), (n, False)]" by simp
    show "24 \<le> ?N" using f(4) by simp
    show "8 dvd ?N" by (rule Nt(2))
    show "pv = first_block s + total_size pre0" by (rule pv)
    show "set fl \<subseteq> set (starts (first_block s) ?bl')" by (rule sub)
  qed
  have a2: "first_block s2 = first_block s" "arena_start s2 = arena_start s" unfolding s2_def s1_def by simp_all
  note hd = hinv_delete_node[OF hr pvf, folded s3_def]
  have a3: "first_block s3 = first_block s" using frame_st(2)[OF hd(2)] a2 by simp
  have cbs: "cb (?b - 8)" "cb (pv - 4)" "cb (pv + ?N - 8)"
    using f(10) f(11) by (auto intro: cb_le simp: add.assoc)
  have g0: "GET s (ptr (?b - 8)) = tag np False" using fp(2) by simp
  have g1: "GET s1 (ptr (?b - 8)) = tag np False"
    unfolding s1_def using g0 fp(4) fp(6) cbs by (subst GET_PUT_o(2)) simp_all
  have g2: "GET s2 (ptr (?b - 8)) = tag np False"
    unfolding s2_def using g1 f(4) fp(6) cbs by (subst GET_PUT_o(1)) simp_all
  have cl: "clear (insert (arena_start s2 + 8) (set fl)) (?b - 8)"
  proof (rule clear_layout[where pre = pre0 and N = ?N and al = False and post = post and a = "first_block s"])
    show "sizes_ok ?bl'" using hinvD(4)[OF hr] .
    show "insert (arena_start s2 + 8) (set fl) \<subseteq> insert (first_block s - 40) (set (starts (first_block s) ?bl'))"
      using sub a2 by (auto simp: first_block_def)
    show "40 \<le> first_block s" by (simp add: first_block_def)
    show "first_block s + total_size pre0 \<le> pv + np - 8 + 4" using pv fp(4) by simp
    show "pv + np - 8 + 8 \<le> first_block s + total_size pre0 + ?N" using pv fp(4) by simp
    show "first_block s + total_size pre0 \<notin> insert (arena_start s2 + 8) (set fl) \<or> pv + np - 8 + 4 \<le> first_block s + total_size pre0
      \<or> first_block s + total_size pre0 + 16 \<le> pv + np - 8" using pv fp(4) by (intro disjI2) linarith
  qed
  have g3: "GET s3 (ptr (?b - 8)) = tag np False"
    using frameD[OF hd(2) cl cbs(1)] g2 by simp
  have pr: "PREV_BLKP s' (ptr ?b) = ptr pv" if "GET s' (ptr (?b - 8)) = tag np False" for s'
    using prev_reads[OF that fp(3) fp(5), of] fp(4) by simp
  have eq: "coalesce (ptr ?b) s = (ptr pv, add_node (ptr pv) s3)"
  proof (rule coalesce_c2[where pv = "ptr pv" and t = "tag ?N False" and ?s1.0 = s1 and ?s2.0 = s2])
    show "\<not> (GET_ALLOC s (FTRP s (PREV_BLKP s (ptr ?b))) \<noteq> 0 \<or> PREV_BLKP s (ptr ?b) = ptr ?b)"
      using prev_alloc(1)[OF h' b'] by simp
    show "GET_ALLOC s (HDRP (NEXT_BLKP s (ptr ?b))) \<noteq> 0"
      unfolding r(4) using next_alloc[OF h' b'] nxa by simp
    show "PREV_BLKP s (ptr ?b) = ptr pv" using pr[OF g0] .
    show "PACK (ucast ((ucast (GET_SIZE s (HDRP (ptr ?b))) :: addr)
        + ucast (GET_SIZE s (HDRP (ptr pv))))) 0 = tag ?N False"
      unfolding r(6) rp(6) using size_sum2[of n np] by (simp add: add.commute)
    show "PUT (HDRP (ptr pv)) (tag ?N False) s = s1" unfolding rp(1) s1_def ..
    show "PREV_BLKP s1 (ptr ?b) = ptr pv" using pr[OF g1] .
    have "GET s1 (ptr (pv - 4)) = tag ?N False" unfolding s1_def by (rule GET_PUT_same)
    then have "FTRP s1 (ptr pv) = ptr (pv + ?N - 8)"
      using fp(6) by (intro blk_reads(4)[OF _ Nt]) simp_all
    then show "PUT (FTRP s1 (ptr pv)) (tag ?N False) s1 = s2" unfolding s2_def by simp
    show "PREV_BLKP s2 (ptr ?b) = ptr pv" using pr[OF g2] .
    show "delete_node (ptr pv) s2 = s3" by (simp add: s3_def)
    show "PREV_BLKP s3 (ptr ?b) = ptr pv" using pr[OF g3] .
  qed
  have bs: "pv \<in> set (starts (first_block s3) ?bl')" unfolding a3 using pv by (simp add: starts_append)
  have bn: "pv \<notin> set ?fl3" using d(5) by simp
  note ha = hinv_add_node[OF hd(1) bs bn]
  let ?s' = "add_node (ptr pv) s3"
  have first_block': "first_block ?s' = first_block s" using frame_st(2)[OF ha(2)] a3 by simp
  have "set (pv # ?fl3) = set (frees (first_block s) ?bl')"
    using d(5) fl' pv by (auto simp: frees_append add.assoc)
  moreover have "no_adj ?bl'" using na nxa by (simp add: no_adj_append)
  ultimately have "good ?s' ?bl' (pv # ?fl3)" unfolding good_def using ha(1) first_block' by simp
  then have "free_at ?s' pv n" using pv first_block' by (intro free_atI[of ?s' pre0 ?N post "pv # ?fl3"]) simp_all
  then show ?thesis using eq by blast
qed

lemma size_sum3:
  assumes "np + nn < 2 ^ 32"
  shows "PACK (ucast ((of_nat n :: addr) + ucast ((of_nat np :: u32) + of_nat nn))) 0
           = tag (np + n + nn) False"
proof -
  have "(ucast ((of_nat np :: u32) + of_nat nn) :: addr) = of_nat (np + nn)"
    using ucast_of_nat_32_64[OF assms] by simp
  then have "(of_nat n :: addr) + ucast ((of_nat np :: u32) + of_nat nn) = of_nat (np + n + nn)"
    by simp
  then show ?thesis by (simp only: ucast_of_nat_64_32 tag_PACK)
qed

lemma coalesce_case3:
  assumes h: "hinv s (pre0 @ (np, False) # (n, False) # (nn, False) # post0) fl"
    and pv: "pv = first_block s + total_size pre0" and bf: "pv + np \<notin> set fl"
    and fs: "set fl = set (frees (first_block s) (pre0 @ (np, False) # (n, False) # (nn, False) # post0))
               - {pv + np}"
    and na: "no_adj (pre0 @ [(np, False)])" "no_adj ((nn, False) # post0)"
  shows "\<exists>b' s'. coalesce (ptr (pv + np)) s = (ptr b', s') \<and> free_at s' b' n"
proof -
  let ?b = "pv + np"
  let ?nx = "pv + np + n"
  let ?N = "np + n + nn"
  let ?bl = "pre0 @ (np, False) # (n, False) # (nn, False) # post0"
  let ?bl' = "pre0 @ (?N, False) # post0"
  let ?fl1 = "remove1 pv fl"
  let ?fl2 = "remove1 ?nx ?fl1"
  define s1 where "s1 = delete_node (ptr pv) s"
  define s2 where "s2 = delete_node (ptr ?nx) s1"
  define s3 where "s3 = PUT (ptr (pv - 4)) (tag ?N False) s2"
  define s4 where "s4 = PUT (ptr (pv + ?N - 8)) (tag ?N False) s3"
  have re: "?bl = (pre0 @ [(np, False)]) @ (n, False) # (nn, False) # post0"
    "?bl = (pre0 @ [(np, False), (n, False)]) @ (nn, False) # post0" by simp_all
  have h': "hinv s ((pre0 @ [(np, False)]) @ (n, False) # (nn, False) # post0) fl"
    and h'': "hinv s ((pre0 @ [(np, False), (n, False)]) @ (nn, False) # post0) fl"
    using h by simp_all
  have b': "?b = first_block s + total_size (pre0 @ [(np, False)])"
    and nx': "?nx = first_block s + total_size (pre0 @ [(np, False), (n, False)])" using pv by simp_all
  note fp = block_facts[OF h pv]
  note rp = block_reads[OF h pv]
  note f = block_facts[OF h' b']
  note r = block_reads[OF h' b']
  note fn = block_facts[OF h'' nx']
  note rn = block_reads[OF h'' nx']
  note d = hinvD[OF h]
  have okp: "sizes_ok pre0" "sizes_ok post0" using d(4) by simp_all
  have fl': "set fl = insert pv (insert ?nx (set (frees (first_block s) pre0)
       \<union> set (frees (first_block s + total_size pre0 + np + n + nn) post0)))"
    unfolding fs using pv f(4) fp(4) fn(4)
    by (auto simp: frees_append add.assoc dest: frees_bounds[OF okp(1)] frees_bounds[OF okp(2)])
  have pvf: "pv \<in> set fl" using fl' by simp
  note hd1 = hinv_delete_node[OF h pvf, folded s1_def]
  have a1: "first_block s1 = first_block s" by (rule frame_st(2)[OF hd1(2)])
  have fl1: "set ?fl1 = set fl - {pv}" using d(5) by simp
  have nxf: "?nx \<in> set ?fl1" unfolding fl1 fl' using fp(4) by simp
  note hd2 = hinv_delete_node[OF hd1(1) nxf, folded s2_def]
  have a2: "first_block s2 = first_block s" using frame_st(2)[OF hd2(2)] a1 by simp
  have fl2: "set ?fl2 = set (frees (first_block s) pre0) \<union> set (frees (first_block s + total_size pre0 + np + n + nn) post0)"
    using d(5) fl' pv fp(4) f(4) fn(4)
    by (auto simp: add.assoc dest: frees_bounds[OF okp(1)] frees_bounds[OF okp(2)])
  have sub: "set ?fl2 \<subseteq> set (starts (first_block s2) ?bl')"
    unfolding fl2 a2 by (auto simp: starts_append add.assoc dest: frees_in_starts)
  have Nt: "?N < 2 ^ 32" "8 dvd ?N" "np + nn < 2 ^ 32" using d(7) f(5) fp(5) fn(5) by simp_all
  have hr: "hinv s4 ?bl' ?fl2"
    unfolding s4_def s3_def
  proof (rule hinv_retag[where X = "[(np, False), (n, False), (nn, False)]"])
    show "hinv s2 (pre0 @ [(np, False), (n, False), (nn, False)] @ post0) ?fl2" using hd2(1) by simp
    show "?N = total_size [(np, False), (n, False), (nn, False)]" by simp
    show "24 \<le> ?N" using f(4) by simp
    show "8 dvd ?N" by (rule Nt(2))
    show "pv = first_block s2 + total_size pre0" using pv a2 by simp
    show "set ?fl2 \<subseteq> set (starts (first_block s2) ?bl')" by (rule sub)
  qed
  have a4: "first_block s4 = first_block s" unfolding s4_def s3_def using a2 by simp
  have h1': "hinv s1 ((pre0 @ [(np, False)]) @ (n, False) # (nn, False) # post0) ?fl1"
    using hd1(1) by simp
  have b1': "?b = first_block s1 + total_size (pre0 @ [(np, False)])" using pv a1 by simp
  have h2': "hinv s2 ((pre0 @ [(np, False)]) @ (n, False) # (nn, False) # post0) ?fl2"
    using hd2(1) by simp
  have b2': "?b = first_block s2 + total_size (pre0 @ [(np, False)])" using pv a2 by simp
  have cbs: "cb (?b - 8)" "cb (pv - 4)" "cb (pv + ?N - 8)"
    using f(10) fn(11) by (auto intro: cb_le simp: add.assoc)
  have g0: "GET s (ptr (?b - 8)) = tag np False" using fp(2) by simp
  have g2: "GET s2 (ptr (?b - 8)) = tag np False" using prev_alloc(3)[OF h2' b2', of pre0 np False] by simp
  have g3: "GET s3 (ptr (?b - 8)) = tag np False"
    unfolding s3_def using g2 fp(4) fp(6) cbs by (subst GET_PUT_o(2)) simp_all
  have g4: "GET s4 (ptr (?b - 8)) = tag np False"
    unfolding s4_def using g3 f(4) fp(6) cbs by (subst GET_PUT_o(1)) simp_all
  have pr: "PREV_BLKP s' (ptr ?b) = ptr pv" if "GET s' (ptr (?b - 8)) = tag np False" for s'
    using prev_reads[OF that fp(3) fp(5), of] fp(4) by simp
  have eq: "coalesce (ptr ?b) s = (ptr pv, add_node (ptr pv) s4)"
  proof (rule coalesce_c3[where pv = "ptr pv" and nx = "ptr ?nx" and t = "tag ?N False"
        and ?s1.0 = s1 and ?s2.0 = s2 and ?s3.0 = s3])
    show "\<not> (GET_ALLOC s (FTRP s (PREV_BLKP s (ptr ?b))) \<noteq> 0 \<or> PREV_BLKP s (ptr ?b) = ptr ?b)"
      using prev_alloc(1)[OF h' b'] by simp
    show "GET_ALLOC s (HDRP (NEXT_BLKP s (ptr ?b))) = 0" unfolding r(4) using rn(3) by simp
    show "PREV_BLKP s (ptr ?b) = ptr pv" using pr[OF g0] .
    show "NEXT_BLKP s (ptr ?b) = ptr ?nx" by (rule r(4))
    show "PACK (ucast ((ucast (GET_SIZE s (HDRP (ptr ?b))) :: addr)
        + ucast (GET_SIZE s (HDRP (ptr pv)) + GET_SIZE s (HDRP (ptr ?nx))))) 0 = tag ?N False"
      unfolding r(6) rp(2) rn(2) by (rule size_sum3[OF Nt(3)])
    show "delete_node (ptr pv) s = s1" by (simp add: s1_def)
    show "NEXT_BLKP s1 (ptr ?b) = ptr ?nx" by (rule block_reads(4)[OF h1' b1'])
    show "delete_node (ptr ?nx) s1 = s2" by (simp add: s2_def)
    show "PREV_BLKP s2 (ptr ?b) = ptr pv" using pr[OF g2] .
    show "PUT (HDRP (ptr pv)) (tag ?N False) s2 = s3" unfolding rp(1) s3_def ..
    show "PREV_BLKP s3 (ptr ?b) = ptr pv" using pr[OF g3] .
    have "GET s3 (ptr (pv - 4)) = tag ?N False" unfolding s3_def by (rule GET_PUT_same)
    then have "FTRP s3 (ptr pv) = ptr (pv + ?N - 8)"
      using fp(6) by (intro blk_reads(4)[OF _ Nt(1,2)]) simp_all
    then show "PUT (FTRP s3 (ptr pv)) (tag ?N False) s3 = s4" unfolding s4_def by simp
    show "PREV_BLKP s4 (ptr ?b) = ptr pv" using pr[OF g4] .
  qed
  have bs: "pv \<in> set (starts (first_block s4) ?bl')" unfolding a4 using pv by (simp add: starts_append)
  have bn: "pv \<notin> set ?fl2" unfolding fl2 using pv fp(4)
    by (auto dest: frees_bounds[OF okp(1)] frees_bounds[OF okp(2)])
  note ha = hinv_add_node[OF hr bs bn]
  let ?s' = "add_node (ptr pv) s4"
  have first_block': "first_block ?s' = first_block s" using frame_st(2)[OF ha(2)] a4 by simp
  have "set (pv # ?fl2) = set (frees (first_block s) ?bl')"
    unfolding list.set fl2 using pv by (auto simp: frees_append add.assoc)
  moreover have "no_adj ?bl'" using na by (simp add: no_adj_append no_adj_Cons)
  ultimately have "good ?s' ?bl' (pv # ?fl2)" unfolding good_def using ha(1) first_block' by simp
  then have "free_at ?s' pv n" using pv first_block' by (intro free_atI[of ?s' pre0 ?N post0 "pv # ?fl2"]) simp_all
  then show ?thesis using eq by blast
qed

lemma coalesce_spec:
  assumes h: "hinv s (pre @ (n, False) # post) fl" and b: "b = first_block s + total_size pre"
    and bf: "b \<notin> set fl"
    and fs: "set fl = set (frees (first_block s) (pre @ (n, False) # post)) - {b}"
    and na: "no_adj pre" "no_adj post"
  shows "\<exists>b' s'. coalesce (ptr b) s = (ptr b', s') \<and> free_at s' b' n"
proof (cases "pre = [] \<or> snd (last pre)")
  case PA: True
  show ?thesis
  proof (cases "post = [] \<or> snd (hd post)")
    case True
    show ?thesis using coalesce_case4[OF h b bf fs na PA True] .
  next
    case False
    then obtain nn post0 where post: "post = (nn, False) # post0" by (cases post) auto
    show ?thesis
      using coalesce_case1[OF h[unfolded post] b bf fs[unfolded post] na(1) na(2)[unfolded post] PA] .
  qed
next
  case False
  then obtain pre0 np where pre: "pre = pre0 @ [(np, False)]" by (cases pre rule: rev_cases) auto
  define pv where "pv = first_block s + total_size pre0"
  have bb: "b = pv + np" using b pre pv_def by simp
  have h0: "hinv s (pre0 @ (np, False) # (n, False) # post) fl" using h pre by simp
  have fs0: "set fl = set (frees (first_block s) (pre0 @ (np, False) # (n, False) # post)) - {pv + np}"
    using fs pre bb by simp
  show ?thesis
  proof (cases "post = [] \<or> snd (hd post)")
    case True
    show ?thesis unfolding bb
      using coalesce_case2[OF h0 pv_def bf[unfolded bb] fs0 na(1)[unfolded pre] na(2) True] .
  next
    case False
    then obtain nn post0 where post: "post = (nn, False) # post0" by (cases post) auto
    show ?thesis unfolding bb
      using coalesce_case3[OF h0[unfolded post] pv_def bf[unfolded bb] fs0[unfolded post]
          na(1)[unfolded pre] na(2)[unfolded post]] .
  qed
qed

section \<open>Freeing and placing keep the invariant\<close>

text \<open>
  \<^verbatim>\<open>mm_free\<close> of an allocated block and \<^verbatim>\<open>place\<close> of a request on a free block that
  is large enough, with or without a split, lead to a heap that satisfies the invariant
  for some layout (\<open>heap_ok\<close>).
\<close>

definition heap_ok :: "heap \<Rightarrow> bool" where
  "heap_ok s = (\<exists>bl fl. good s bl fl)"

lemma free_at_inv: "free_at s b n \<Longrightarrow> heap_ok s"
  unfolding free_at_def heap_ok_def by blast

lemma starts_flag: "starts a (pre @ (n, al) # post) = starts a (pre @ (n, al') # post)"
  by (simp add: starts_append)

lemma mm_free_eq:
  assumes "PACK (ucast (ucast (GET_SIZE s (HDRP bp)) :: addr)) 0 = t"
    and "PUT (HDRP bp) t s = s1" and "PUT (FTRP s1 bp) t s1 = s2"
  shows "mm_free bp s = snd (coalesce bp s2)"
  using assms unfolding mm_free_def Let_def by simp

lemma mm_free_spec:
  assumes gd: "good s (pre @ (n, True) # post) fl" and b: "b = first_block s + total_size pre"
  shows "heap_ok (mm_free (ptr b) s)"
proof -
  let ?bl = "pre @ (n, True) # post" and ?bl' = "pre @ (n, False) # post"
  define s1 where "s1 = PUT (ptr (b - 4)) (tag n False) s"
  define s2 where "s2 = PUT (ptr (b + n - 8)) (tag n False) s1"
  from gd have h: "hinv s ?bl fl" and fs: "set fl = set (frees (first_block s) ?bl)" and na: "no_adj ?bl"
    unfolding good_def by auto
  note f = block_facts[OF h b]
  note r = block_reads[OF h b]
  note d = hinvD[OF h]
  have okp: "sizes_ok pre" "sizes_ok post" using d(4) by simp_all
  have hr: "hinv s2 ?bl' fl"
    unfolding s2_def s1_def
  proof (rule hinv_retag[where X = "[(n, True)]"])
    show "hinv s (pre @ [(n, True)] @ post) fl" using h by simp
    show "n = total_size [(n, True)]" by simp
    show "24 \<le> n" "8 dvd n" by (rule f(4), rule f(5))
    show "b = first_block s + total_size pre" by (rule b)
    show "set fl \<subseteq> set (starts (first_block s) ?bl')" using d(6) starts_flag[of "first_block s" pre n True post False] by simp
  qed
  have a2: "first_block s2 = first_block s" unfolding s2_def s1_def by simp
  have eq: "mm_free (ptr b) s = snd (coalesce (ptr b) s2)"
  proof (rule mm_free_eq[where t = "tag n False" and ?s1.0 = s1])
    show "PACK (ucast (ucast (GET_SIZE s (HDRP (ptr b))) :: addr)) 0 = tag n False"
      unfolding r(6) by (simp only: ucast_of_nat_64_32 tag_PACK)
    show "PUT (HDRP (ptr b)) (tag n False) s = s1" unfolding r(1) s1_def ..
    have "GET s1 (ptr (b - 4)) = tag n False" unfolding s1_def by (rule GET_PUT_same)
    then have "FTRP s1 (ptr b) = ptr (b + n - 8)"
      using f(6) by (intro blk_reads(4)[OF _ f(3) f(5)]) simp_all
    then show "PUT (FTRP s1 (ptr b)) (tag n False) s1 = s2" unfolding s2_def by simp
  qed
  have bf: "b \<notin> set fl" unfolding fs using b f(4)
    by (auto simp: frees_append dest: frees_bounds[OF okp(1)] frees_bounds[OF okp(2)])
  have fs2: "set fl = set (frees (first_block s2) ?bl') - {b}" unfolding fs a2 using b f(4)
    by (auto simp: frees_append dest: frees_bounds[OF okp(1)] frees_bounds[OF okp(2)])
  have na2: "no_adj pre" "no_adj post" using na by (simp_all add: no_adj_append)
  obtain b' s' where "coalesce (ptr b) s2 = (ptr b', s')" "free_at s' b' n"
    using coalesce_spec[OF hr _ bf fs2 na2] b a2 by auto
  then show ?thesis using eq free_at_inv by simp
qed

lemma place_c1:
  assumes "HEAP_SIZE \<le> (ucast (GET_SIZE s (HDRP bp)) :: addr) - ucast asize"
    and "PUT (HDRP bp) (PACK asize 1) s = s1" and "PUT (FTRP s1 bp) (PACK asize 1) s1 = s2"
    and "delete_node bp s2 = s3" and "NEXT_BLKP s3 bp = bp'"
    and "PACK (ucast ((ucast (GET_SIZE s (HDRP bp)) :: addr) - ucast asize)) 0 = t"
    and "PUT (HDRP bp') t s3 = s4" and "PUT (FTRP s4 bp') t s4 = s5"
  shows "place bp asize s = snd (coalesce bp' s5)"
  using assms unfolding place_def Let_def by simp

lemma place_c2:
  assumes "\<not> HEAP_SIZE \<le> (ucast (GET_SIZE s (HDRP bp)) :: addr) - ucast asize"
    and "PACK (ucast (ucast (GET_SIZE s (HDRP bp)) :: addr)) 1 = t"
    and "PUT (HDRP bp) t s = s1" and "PUT (FTRP s1 bp) t s1 = s2"
  shows "place bp asize s = delete_node bp s2"
  using assms unfolding place_def Let_def by simp

lemma place_cond:
  assumes "asz \<le> n" "n < 2 ^ 32"
  shows "(HEAP_SIZE \<le> (of_nat n :: addr) - ucast (of_nat asz :: u32)) = (24 \<le> n - asz)"
    and "PACK (ucast ((of_nat n :: addr) - ucast (of_nat asz :: u32))) 0 = tag (n - asz) False"
proof -
  have a: "asz < 2 ^ 32" using assms by simp
  have 1: "(of_nat n :: addr) - ucast (of_nat asz :: u32) = of_nat (n - asz)"
    using ucast_of_nat_32_64[OF a] assms(1) by simp
  have "n - asz < 2 ^ 64" using assms(2) by simp
  then have 2: "unat (of_nat (n - asz) :: addr) = n - asz" by (rule unat_of_nat64)
  show "(HEAP_SIZE \<le> (of_nat n :: addr) - ucast (of_nat asz :: u32)) = (24 \<le> n - asz)"
    unfolding 1 HEAP_SIZE_def word_le_nat_alt 2 by simp
  show "PACK (ucast ((of_nat n :: addr) - ucast (of_nat asz :: u32))) 0 = tag (n - asz) False"
    unfolding 1 by (simp only: ucast_of_nat_64_32 tag_PACK)
qed

lemma place_whole:
  assumes gd: "good s (pre @ (n, False) # post) fl" and b: "b = first_block s + total_size pre"
    and a: "asz \<le> n" "\<not> 24 \<le> n - asz"
  shows "heap_ok (place (ptr b) (of_nat asz) s)"
proof -
  let ?bl = "pre @ (n, False) # post" and ?bl' = "pre @ (n, True) # post"
  define s1 where "s1 = PUT (ptr (b - 4)) (tag n True) s"
  define s2 where "s2 = PUT (ptr (b + n - 8)) (tag n True) s1"
  from gd have h: "hinv s ?bl fl" and fs: "set fl = set (frees (first_block s) ?bl)" and na: "no_adj ?bl"
    unfolding good_def by auto
  note f = block_facts[OF h b]
  note r = block_reads[OF h b]
  note d = hinvD[OF h]
  have okp: "sizes_ok pre" "sizes_ok post" using d(4) by simp_all
  have hr: "hinv s2 ?bl' fl"
    unfolding s2_def s1_def
  proof (rule hinv_retag[where X = "[(n, False)]"])
    show "hinv s (pre @ [(n, False)] @ post) fl" using h by simp
    show "n = total_size [(n, False)]" by simp
    show "24 \<le> n" "8 dvd n" by (rule f(4), rule f(5))
    show "b = first_block s + total_size pre" by (rule b)
    show "set fl \<subseteq> set (starts (first_block s) ?bl')" using d(6) starts_flag[of "first_block s" pre n True post False] by simp
  qed
  have a2: "first_block s2 = first_block s" unfolding s2_def s1_def by simp
  have eq: "place (ptr b) (of_nat asz) s = delete_node (ptr b) s2"
  proof (rule place_c2[where t = "tag n True" and ?s1.0 = s1])
    show "\<not> HEAP_SIZE \<le> (ucast (GET_SIZE s (HDRP (ptr b))) :: addr) - ucast (of_nat asz :: u32)"
      unfolding r(6) using place_cond(1)[OF a(1) f(3)] a(2) by simp
    show "PACK (ucast (ucast (GET_SIZE s (HDRP (ptr b))) :: addr)) 1 = tag n True"
      unfolding r(6) by (simp only: ucast_of_nat_64_32 tag_PACK)
    show "PUT (HDRP (ptr b)) (tag n True) s = s1" unfolding r(1) s1_def ..
    have "GET s1 (ptr (b - 4)) = tag n True" unfolding s1_def by (rule GET_PUT_same)
    then have "FTRP s1 (ptr b) = ptr (b + n - 8)"
      using f(6) by (intro blk_reads(4)[OF _ f(3) f(5)]) simp_all
    then show "PUT (FTRP s1 (ptr b)) (tag n True) s1 = s2" unfolding s2_def by simp
  qed
  have bfl: "b \<in> set fl" unfolding fs using b by (simp add: frees_append)
  note hd = hinv_delete_node[OF hr bfl]
  let ?s' = "delete_node (ptr b) s2"
  have a3: "first_block ?s' = first_block s" using frame_st(2)[OF hd(2)] a2 by simp
  have "set (remove1 b fl) = set (frees (first_block s) ?bl')"
    using d(5) fs b f(4)
    by (auto simp: frees_append dest: frees_bounds[OF okp(1)] frees_bounds[OF okp(2)])
  moreover have "no_adj ?bl'" using na by (simp add: no_adj_append)
  ultimately have "good ?s' ?bl' (remove1 b fl)" unfolding good_def using hd(1) a3 by simp
  then show ?thesis unfolding eq heap_ok_def by blast
qed

lemma place_split:
  assumes gd: "good s (pre @ (n, False) # post) fl" and b: "b = first_block s + total_size pre"
    and a: "24 \<le> asz" "8 dvd asz" "asz \<le> n" "24 \<le> n - asz"
  shows "heap_ok (place (ptr b) (of_nat asz) s)"
proof -
  let ?bl = "pre @ (n, False) # post"
  let ?m = "n - asz"
  let ?bl' = "pre @ (asz, True) # (?m, False) # post"
  let ?fl3 = "remove1 b fl"
  let ?M = "insert (arena_start s + 8) (set fl)"
  let ?M3 = "insert (arena_start s + 8) (set ?fl3)"
  define s1 where "s1 = PUT (ptr (b - 4)) (tag asz True) s"
  define s2 where "s2 = PUT (ptr (b + asz - 8)) (tag asz True) s1"
  define s3 where "s3 = delete_node (ptr b) s2"
  define s4 where "s4 = PUT (ptr (b + asz - 4)) (tag ?m False) s3"
  define s5 where "s5 = PUT (ptr (b + asz + ?m - 8)) (tag ?m False) s4"
  from gd have h: "hinv s ?bl fl" and fs: "set fl = set (frees (first_block s) ?bl)" and na: "no_adj ?bl"
    unfolding good_def by auto
  note f = block_facts[OF h b]
  note r = block_reads[OF h b]
  note d = hinvD[OF h]
  have okp: "sizes_ok pre" "sizes_ok post" using d(4) by simp_all
  have a40: "first_block s - 40 = arena_start s + 8" "40 \<le> first_block s" by (simp_all add: first_block_def)
  have bfl: "b \<in> set fl" unfolding fs using b by (simp add: frees_append)
  have fl3: "set ?fl3 = set fl - {b}" using d(5) by simp
  have Msub: "?M \<subseteq> insert (first_block s - 40) (set (starts (first_block s) ?bl))" using d(6) a40 by auto
  have M3sub: "?M3 \<subseteq> insert (first_block s - 40) (set (starts (first_block s) ?bl))" using d(6) a40 fl3 by auto
  have bM3: "first_block s + total_size pre \<notin> ?M3" using fl3 b by (simp add: first_block_def)
  have cl: "clear ?M c" if "b \<le> c + 4" "c + 8 \<le> b + n" "c + 4 \<le> b \<or> b + 16 \<le> c" for c
    using that b by (intro clear_layout[OF d(4) Msub a40(2)]) auto
  have cl3: "clear ?M3 c" if "b \<le> c + 4" "c + 8 \<le> b + n" for c
    using that b bM3 by (intro clear_layout[OF d(4) M3sub a40(2)]) auto
  have cbs: "cb c" if "c + 8 \<le> b + n" for c using f(11) that cb_le[of "b + n - 8" c] by simp
  have st1: "arena_start s1 = arena_start s" "first_block s1 = first_block s" "arena_start s2 = arena_start s" "first_block s2 = first_block s"
    unfolding s1_def s2_def by simp_all
  have c1: "clear ?M (b - 4)" using a f(4) f(6) by (intro cl) arith+
  have c2: "clear ?M (b + asz - 8)" using a f(4) f(6) by (intro cl) arith+
  have c3: "clear ?M3 (b + asz - 4)" using a f(4) f(6) by (intro cl3) arith+
  have c4: "clear ?M3 (b + asz + ?m - 8)" using a f(4) f(6) by (intro cl3) arith+
  have k1: "cb (b - 4)" using a f(4) f(6) by (intro cbs) arith
  have k2: "cb (b + asz - 8)" using a f(4) f(6) by (intro cbs) arith
  have k3: "cb (b + asz - 4)" using a f(4) f(6) by (intro cbs) arith
  have k4: "cb (b + asz + ?m - 8)" using a f(4) f(6) by (intro cbs) arith
  have l1: "linv s1 ?bl fl" unfolding s1_def by (rule linv_PUT[OF d(1) c1 k1])
  have l2: "linv s2 ?bl fl" unfolding s2_def using linv_PUT[OF l1 _ k2] c2 by (simp add: st1)
  note ld = linv_delete_node[OF l2 bfl, folded s3_def]
  have st3: "arena_start s3 = arena_start s" "first_block s3 = first_block s" using frame_st[OF ld(2)] st1 by simp_all
  have st5: "arena_start s4 = arena_start s" "first_block s4 = first_block s" "arena_start s5 = arena_start s" "first_block s5 = first_block s"
    unfolding s4_def s5_def using st3 by simp_all
  have l4: "linv s4 ?bl ?fl3" unfolding s4_def using linv_PUT[OF ld(1) _ k3] c3 by (simp add: st3)
  have l5: "linv s5 ?bl ?fl3" unfolding s5_def using linv_PUT[OF l4 _ k4] c4 by (simp add: st5)
  have an: "asz + (n - asz) = n" using a by simp
  have sub: "set ?fl3 \<subseteq> set (starts (first_block s5) ?bl')"
    unfolding fl3 fs st5 using b
    by (auto simp: frees_append starts_append add.assoc an dest: frees_in_starts)
  have l5': "linv s5 ?bl' ?fl3"
    using a f(5) d(4) by (intro linv_relabel[OF l5 _ _ sub]) simp_all
  have g: "geo s (b + n + total_size post)" using d(3) b by (simp add: add.assoc)
  have g2: "geo s2 (b + n + total_size post)" unfolding s2_def s1_def using g by simp
  have cx1: "ctx s1 pre (b + n) post" unfolding s1_def using b f(4) f(6)
    by (intro ctx_PUT[OF f(9) g]) simp_all
  have cx2: "ctx s2 pre (b + n) post" unfolding s2_def using b f(4) f(6) a g
    by (intro ctx_PUT[OF cx1]) (simp_all add: st1 s1_def)
  have Mok: "Mok s2 (insert (arena_start s2 + 8) (set fl)) pre (first_block s2 + total_size pre + total_size [(n, False)]) post"
    using d(6) f(4) f(5) by (intro Mok_layout) (auto simp: st1)
  have cx3: "ctx s3 pre (b + n) post"
    using Mok b by (intro ctx_frame[OF cx2 g2 ld(2)]) (simp_all add: st1)
  have g3: "geo s3 (b + n + total_size post)" using hinvD(3) l5 ld(1) b st3 unfolding linv_def by (simp add: add.assoc)
  have cx4: "ctx s4 pre (b + n) post" unfolding s4_def using b f(4) f(6) a
    by (intro ctx_PUT[OF cx3 g3]) (simp_all add: st3)
  have g4: "geo s4 (b + n + total_size post)" unfolding s4_def using g3 by simp
  have cx5: "ctx s5 pre (b + n) post" unfolding s5_def using b f(4) f(6) a
    by (intro ctx_PUT[OF cx4 g4]) (simp_all add: st5)
  have fr3: "GET s3 (ptr c) = GET s2 (ptr c)"
    if "b \<le> c + 4" "c + 8 \<le> b + n" "c + 4 \<le> b \<or> b + 16 \<le> c" for c
    using frameD[OF ld(2), of c] cl[OF that] cbs[OF that(2)] by (simp add: st1)
  have o1: "GET (PUT (ptr y) v s') (ptr c) = GET s' (ptr c)" if "c + 4 \<le> y" "y + 8 \<le> b + n" for y c v s'
    using that by (intro GET_PUT_o(1) cbs) simp_all
  note ar = a f(4) f(6)
  have e1: "GET s1 (ptr (b - 4)) = tag asz True" unfolding s1_def by (rule GET_PUT_same)
  have e2: "GET s2 (ptr (b - 4)) = GET s1 (ptr (b - 4))"
    unfolding s2_def using ar by (intro o1) arith+
  have e3: "GET s3 (ptr (b - 4)) = GET s2 (ptr (b - 4))" using ar by (intro fr3) arith+
  have e4: "GET s4 (ptr (b - 4)) = GET s3 (ptr (b - 4))"
    unfolding s4_def using ar by (intro o1) arith+
  have e5: "GET s5 (ptr (b - 4)) = GET s4 (ptr (b - 4))"
    unfolding s5_def using ar by (intro o1) arith+
  have u3: "GET s3 (ptr (b - 4)) = tag asz True" using e1 e2 e3 by simp
  have t1: "GET s5 (ptr (b - 4)) = tag asz True" using u3 e4 e5 by simp
  have v2: "GET s2 (ptr (b + asz - 8)) = tag asz True" unfolding s2_def by (rule GET_PUT_same)
  have v3: "GET s3 (ptr (b + asz - 8)) = GET s2 (ptr (b + asz - 8))" using ar by (intro fr3) arith+
  have v4: "GET s4 (ptr (b + asz - 8)) = GET s3 (ptr (b + asz - 8))"
    unfolding s4_def using ar by (intro o1) arith+
  have v5: "GET s5 (ptr (b + asz - 8)) = GET s4 (ptr (b + asz - 8))"
    unfolding s5_def using ar by (intro o1) arith+
  have t2: "GET s5 (ptr (b + asz - 8)) = tag asz True" using v2 v3 v4 v5 by simp
  have w4: "GET s4 (ptr (b + asz - 4)) = tag ?m False" unfolding s4_def by (rule GET_PUT_same)
  have w5: "GET s5 (ptr (b + asz - 4)) = GET s4 (ptr (b + asz - 4))"
    unfolding s5_def using ar by (intro o1) arith+
  have t3: "GET s5 (ptr (b + asz - 4)) = tag ?m False" using w4 w5 by simp
  have t4: "GET s5 (ptr (b + asz + ?m - 8)) = tag ?m False" unfolding s5_def by (rule GET_PUT_same)
  have "ctx s5 [] (first_block s5) ?bl'"
    using ctx_split[of s5 pre "[(asz, True), (?m, False)]" post] cx5 t1 t2 t3 t4 a f(5) b
    by (simp add: st5 add.assoc an)
  then have h5: "hinv s5 (( pre @ [(asz, True)]) @ (?m, False) # post) ?fl3"
    unfolding hinv_def using l5' by simp
  have mt: "?m < 2 ^ 32" "8 dvd ?m" "asz < 2 ^ 32" using f(3) f(5) a by simp_all
  have eq: "place (ptr b) (of_nat asz) s = snd (coalesce (ptr (b + asz)) s5)"
  proof (rule place_c1[where t = "tag ?m False" and ?s1.0 = s1 and ?s2.0 = s2 and ?s3.0 = s3
        and ?s4.0 = s4])
    show "HEAP_SIZE \<le> (ucast (GET_SIZE s (HDRP (ptr b))) :: addr) - ucast (of_nat asz :: u32)"
      unfolding r(6) using place_cond(1)[OF a(3) f(3)] a(4) by simp
    show "PUT (HDRP (ptr b)) (PACK (of_nat asz) 1) s = s1" unfolding r(1) s1_def tag_PACK ..
    have "GET s1 (ptr (b - 4)) = tag asz True" unfolding s1_def by (rule GET_PUT_same)
    then have "FTRP s1 (ptr b) = ptr (b + asz - 8)"
      using f(6) by (intro blk_reads(4)[OF _ mt(3) a(2)]) simp_all
    then show "PUT (FTRP s1 (ptr b)) (PACK (of_nat asz) 1) s1 = s2" unfolding s2_def tag_PACK by simp
    show "delete_node (ptr b) s2 = s3" by (simp add: s3_def)
    show "NEXT_BLKP s3 (ptr b) = ptr (b + asz)"
      using f(6) by (intro blk_reads(3)[OF u3 mt(3) a(2)]) simp_all
    show "PACK (ucast ((ucast (GET_SIZE s (HDRP (ptr b))) :: addr) - ucast (of_nat asz :: u32))) 0
        = tag ?m False"
      unfolding r(6) by (rule place_cond(2)[OF a(3) f(3)])
    have hp: "HDRP (ptr (b + asz)) = ptr (b + asz - 4)" using f(6) by (intro hdrp_ptr) simp
    show "PUT (HDRP (ptr (b + asz))) (tag ?m False) s3 = s4" unfolding hp s4_def ..
    have "GET s4 (ptr (b + asz - 4)) = tag ?m False" unfolding s4_def by (rule GET_PUT_same)
    then have "FTRP s4 (ptr (b + asz)) = ptr (b + asz + ?m - 8)"
      using f(6) by (intro blk_reads(4)[OF _ mt(1,2)]) simp_all
    then show "PUT (FTRP s4 (ptr (b + asz))) (tag ?m False) s4 = s5" unfolding s5_def by simp
  qed
  have b5: "b + asz = first_block s5 + total_size (pre @ [(asz, True)])" using b st5 by simp
  have bf: "b + asz \<notin> set ?fl3" unfolding fl3 fs using b a
    by (auto simp: frees_append dest: frees_bounds[OF okp(1)] frees_bounds[OF okp(2)])
  have fs5: "set ?fl3 = set (frees (first_block s5) ((pre @ [(asz, True)]) @ (?m, False) # post)) - {b + asz}"
    unfolding fl3 fs st5 using b a
    by (auto simp: frees_append add.assoc an dest: frees_bounds[OF okp(1)] frees_bounds[OF okp(2)])
  have na5: "no_adj (pre @ [(asz, True)])" "no_adj post" using na by (simp_all add: no_adj_append)
  obtain b' s' where "coalesce (ptr (b + asz)) s5 = (ptr b', s')" "free_at s' b' ?m"
    using coalesce_spec[OF h5 b5 bf fs5 na5] by auto
  then show ?thesis using eq free_at_inv by simp
qed

lemma place_spec:
  assumes gd: "good s (pre @ (n, False) # post) fl" and b: "b = first_block s + total_size pre"
    and a: "24 \<le> asz" "8 dvd asz" "asz \<le> n"
  shows "heap_ok (place (ptr b) (of_nat asz) s)"
  using place_split[OF gd b a] place_whole[OF gd b a(3)] by blast

section \<open>Extending, searching, allocating and initialising\<close>

text \<open>
  \<^verbatim>\<open>extend_heap\<close> either fails and leaves the heap as it was, or returns a free block of
  the size asked for. \<^verbatim>\<open>find_fit\<close> ends, at a free block that is large enough or at the
  prologue. So \<^verbatim>\<open>mm_malloc\<close> returns and keeps the invariant, and \<^verbatim>\<open>mm_init\<close>, when it
  reports success on a fresh arena, establishes it. An arena is \<open>fresh\<close> when nothing has
  been obtained from it, it does not start at address 0, it spans less than 4 GiB, and
  the size bits of the word at offset 40, which \<^verbatim>\<open>mm_init\<close> never writes and
  \<^verbatim>\<open>coalesce\<close> reads as the footer before the first block, are zero.
\<close>

definition xinv :: "heap \<Rightarrow> (nat \<times> bool) list \<Rightarrow> nat list \<Rightarrow> bool" where
  "xinv s bl fl = (linv s bl fl \<and> GET s (ptr (arena_start s + 4)) = tag 24 True \<and>
     GET_SIZE s (ptr (arena_start s + 40)) = 0 \<and> tags_at s (first_block s) bl \<and>
     set fl = set (frees (first_block s) bl) \<and> no_adj bl)"

lemma good_xinv: "good s bl fl \<Longrightarrow> xinv s bl fl"
  unfolding good_def hinv_def xinv_def ctx_def by simp

lemma free_at_nonnull: "free_at s b n \<Longrightarrow> ptr b \<noteq> NULL"
proof -
  assume "free_at s b n"
  then obtain pre n' post fl where g: "good s (pre @ (n', False) # post) fl"
    and b: "b = first_block s + total_size pre" unfolding free_at_def by blast
  from g have h: "hinv s (pre @ (n', False) # post) fl" unfolding good_def by simp
  note f = block_facts[OF h b]
  have "b < 2 ^ 64" using f(7) by simp
  then show ?thesis using ptr_eq_NULL[of b] f(6) by simp
qed

lemma extend_c:
  assumes "(ucast (if words mod 2 \<noteq> 0 then (words + 1) * WSIZE else words * WSIZE) :: addr) = sz"
    and "unat (mem_brk s) + unat sz \<le> unat (mem_max_addr s)" and "mem_brk s \<noteq> - 1"
    and "s\<lparr>mem_brk := mem_brk s + sz\<rparr> = s1" and "PACK (ucast sz) 0 = t"
    and "PUT (HDRP (mem_brk s)) t s1 = s2" and "PUT (FTRP s2 (mem_brk s)) t s2 = s3"
    and "PUT (HDRP (NEXT_BLKP s3 (mem_brk s))) (PACK 0 1) s3 = s4"
  shows "extend_heap words s = coalesce (mem_brk s) s4"
  using assms unfolding extend_heap_def mem_sbrk_def Let_def by simp

lemma extend_fail:
  assumes "(ucast (if words mod 2 \<noteq> 0 then (words + 1) * WSIZE else words * WSIZE) :: addr) = sz"
    and "\<not> unat (mem_brk s) + unat sz \<le> unat (mem_max_addr s)"
  shows "extend_heap words s = (NULL, s)"
  using assms unfolding extend_heap_def mem_sbrk_def Let_def by simp

lemma brk_upd [simp]:
  "GET (s\<lparr>mem_brk := r\<rparr>) p = GET s p" "RD64 (s\<lparr>mem_brk := r\<rparr>) x = RD64 s x"
  "arena_start (s\<lparr>mem_brk := r\<rparr>) = arena_start s" "first_block (s\<lparr>mem_brk := r\<rparr>) = first_block s"
  by (simp_all add: GET_def RD64_def arena_start_def first_block_def)

lemma tags_at_brk [simp]: "tags_at (s\<lparr>mem_brk := r\<rparr>) a bs = tags_at s a bs"
  by (induction bs arbitrary: a) auto

lemma dll_brk [simp]: "dll (s\<lparr>mem_brk := r\<rparr>) p c xs e = dll s p c xs e"
  by (induction xs arbitrary: p c) auto

lemma extend_heap_spec:
  assumes x: "xinv s bl fl" and N: "24 \<le> N" "8 dvd N" "N < 2 ^ 32"
    and w: "(ucast (if words mod 2 \<noteq> 0 then (words + 1) * WSIZE else words * WSIZE) :: addr) = of_nat N"
  shows "first_block s + total_size bl + N \<le> unat (mem_max_addr s) \<Longrightarrow>
           \<exists>b' s'. extend_heap words s = (ptr b', s') \<and> free_at s' b' N"
    and "\<not> first_block s + total_size bl + N \<le> unat (mem_max_addr s) \<Longrightarrow> extend_heap words s = (NULL, s)"
proof -
  let ?E = "first_block s + total_size bl"
  let ?bl' = "bl @ [(N, False)]"
  let ?M = "insert (arena_start s + 8) (set fl)"
  from x have l: "linv s bl fl" and t24: "GET s (ptr (arena_start s + 4)) = tag 24 True"
    and gap: "GET_SIZE s (ptr (arena_start s + 40)) = 0" and tg: "tags_at s (first_block s) bl"
    and fs: "set fl = set (frees (first_block s) bl)" and na: "no_adj bl"
    unfolding xinv_def by auto
  from l have g: "geo s ?E" and ok: "sizes_ok bl" and di: "distinct fl"
    and sub: "set fl \<subseteq> set (starts (first_block s) bl)" and z: "RD64 s (arena_start s + 16) = NULL"
    and d: "dll s NULL (list_root s) fl (ptr (arena_start s + 8))"
    unfolding linv_def by auto
  have brk: "mem_brk s = ptr ?E" using g unfolding geo_def by simp
  have Elt: "?E < 2 ^ 64" using geo_lt[OF g, of ?E] by simp
  have ub: "unat (mem_brk s) = ?E" unfolding brk using Elt by (rule unat_ptr)
  have Nlt: "N < 2 ^ 64" using N(3) by (rule less_trans) simp
  have uN: "unat (of_nat N :: addr) = N" using Nlt by (rule unat_of_nat64)
  show "extend_heap words s = (NULL, s)" if "\<not> ?E + N \<le> unat (mem_max_addr s)"
    using that by (intro extend_fail[OF w]) (simp add: ub uN)
  show "\<exists>b' s'. extend_heap words s = (ptr b', s') \<and> free_at s' b' N"
    if room: "?E + N \<le> unat (mem_max_addr s)"
  proof -
    define s1 where "s1 = s\<lparr>mem_brk := ptr (?E + N)\<rparr>"
    define s2 where "s2 = PUT (ptr (?E - 4)) (tag N False) s1"
    define s3 where "s3 = PUT (ptr (?E + N - 8)) (tag N False) s2"
    define s4 where "s4 = PUT (ptr (?E + N - 4)) (tag 0 True) s3"
    have sts: "arena_start s1 = arena_start s" "first_block s1 = first_block s" "arena_start s2 = arena_start s" "first_block s2 = first_block s" "arena_start s3 = arena_start s"
      "first_block s3 = first_block s" "arena_start s4 = arena_start s" "first_block s4 = first_block s"
      unfolding s4_def s3_def s2_def s1_def by simp_all
    have ENlt: "?E + N < 2 ^ 64" using room unat_max_lt[of s] by simp
    have E48: "48 \<le> ?E" by (simp add: first_block_def)
    have k: "cb (?E - 4)" "cb (?E + N - 8)" "cb (?E + N - 4)"
      using ENlt N E48 unfolding cb_def by simp_all
    have g1: "geo s1 (first_block s1 + total_size ?bl')"
      using g room unfolding geo_def s1_def by (simp add: arena_start_def first_block_def add.assoc)
    have l1: "linv s1 ?bl' fl"
      unfolding linv_def using g1 ok N d di sub z
      by (auto simp: sts starts_append) (simp_all add: s1_def)
    have mem: "x + 24 \<le> ?E" if "x \<in> ?M" for x
      using that sub starts_bounds[OF ok, of x "first_block s"] by (auto simp: first_block_def)
    have cl: "clear ?M c" if "?E \<le> c + 4" for c
      unfolding clear_def using mem that by fastforce
    have l2: "linv s2 ?bl' fl" unfolding s2_def using linv_PUT[OF l1 _ k(1)] cl[of "?E - 4"] E48
      by (simp add: sts)
    have l3: "linv s3 ?bl' fl" unfolding s3_def using linv_PUT[OF l2 _ k(2)] cl[of "?E + N - 8"] N
      by (simp add: sts)
    have l4: "linv s4 ?bl' fl" unfolding s4_def using linv_PUT[OF l3 _ k(3)] cl[of "?E + N - 4"] N
      by (simp add: sts)
    have o: "GET (PUT (ptr y) v s') (ptr c) = GET s' (ptr c)"
      if "c + 4 \<le> y" "y + 4 \<le> ?E + N" for y c v s'
      using that ENlt by (intro GET_PUT_o(1)) (simp_all add: cb_def)
    have far: "GET s4 (ptr c) = GET s (ptr c)" if "c + 8 \<le> ?E" for c
      unfolding s4_def s3_def s2_def using that N E48 by (simp add: o s1_def)
    have c1: "GET s4 (ptr (arena_start s + 4)) = tag 24 True" using far[of "arena_start s + 4"] t24 by (simp add: first_block_def)
    have c2: "GET_SIZE s4 (ptr (arena_start s + 40)) = 0"
      using far[of "arena_start s + 40"] gap unfolding GET_SIZE_def by (simp add: first_block_def)
    have tg1: "tags_at s1 (first_block s) bl" unfolding s1_def using tg by simp
    have Ele: "first_block s + total_size bl \<le> 2 ^ 64" using Elt by simp
    have a4: "4 \<le> first_block s" by (simp add: first_block_def)
    have tg2: "tags_at s2 (first_block s) bl" unfolding s2_def using tg1 k(1) E48
      by (subst tags_at_PUT_outside[OF ok a4 Ele]) (simp_all add: cb_def)
    have tg3: "tags_at s3 (first_block s) bl" unfolding s3_def using tg2 k(2) N
      by (subst tags_at_PUT_outside[OF ok a4 Ele]) (simp_all add: cb_def)
    have tg4: "tags_at s4 (first_block s) bl" unfolding s4_def using tg3 k(3) N
      by (subst tags_at_PUT_outside[OF ok a4 Ele]) (simp_all add: cb_def)
    have h2: "GET s2 (ptr (?E - 4)) = tag N False" unfolding s2_def by (rule GET_PUT_same)
    have h4: "GET s4 (ptr (?E - 4)) = tag N False"
      unfolding s4_def s3_def using h2 N E48 by (simp add: o)
    have f3: "GET s3 (ptr (?E + N - 8)) = tag N False" unfolding s3_def by (rule GET_PUT_same)
    have f4: "GET s4 (ptr (?E + N - 8)) = tag N False"
      unfolding s4_def using f3 N by (simp add: o)
    have e4: "GET s4 (ptr (?E + N - 4)) = tag 0 True" unfolding s4_def by (rule GET_PUT_same)
    have "ctx s4 [] (first_block s4) ?bl'"
      unfolding ctx_def using c1 c2 tg4 h4 f4 e4 ok N
      by (simp add: sts tags_at_append add.assoc)
    then have h: "hinv s4 (bl @ (N, False) # []) fl" unfolding hinv_def using l4 by simp
    have eq: "extend_heap words s = coalesce (ptr ?E) s4"
      unfolding brk[symmetric]
    proof (rule extend_c[where sz = "of_nat N" and t = "tag N False" and ?s1.0 = s1
          and ?s2.0 = s2 and ?s3.0 = s3])
      show "(ucast (if words mod 2 \<noteq> 0 then (words + 1) * WSIZE else words * WSIZE) :: addr) = of_nat N"
        by (rule w)
      show "unat (mem_brk s) + unat (of_nat N :: addr) \<le> unat (mem_max_addr s)"
        using room by (simp add: ub uN)
      have "unat (- 1 :: addr) = 2 ^ 64 - 1" by (simp add: unsigned_minus_1_eq_mask mask_eq_exp_minus_1)
      then have "unat (mem_brk s) \<noteq> unat (- 1 :: addr)" unfolding ub using ENlt N by simp
      then show "mem_brk s \<noteq> - 1" by auto
      show "s\<lparr>mem_brk := mem_brk s + of_nat N\<rparr> = s1" unfolding s1_def brk ptr_add ..
      show "PACK (ucast (of_nat N :: addr)) 0 = tag N False"
        by (simp only: ucast_of_nat_64_32 tag_PACK)
      have hp: "HDRP (mem_brk s) = ptr (?E - 4)" unfolding brk using E48 by (intro hdrp_ptr) simp
      show "PUT (HDRP (mem_brk s)) (tag N False) s1 = s2" unfolding hp s2_def ..
      have "FTRP s2 (ptr ?E) = ptr (?E + N - 8)"
        using E48 by (intro blk_reads(4)[OF h2 N(3) N(2)]) simp_all
      then show "PUT (FTRP s2 (mem_brk s)) (tag N False) s2 = s3" unfolding brk s3_def by simp
      have "GET s3 (ptr (?E - 4)) = tag N False" unfolding s3_def using h2 N E48 by (simp add: o)
      then have "NEXT_BLKP s3 (ptr ?E) = ptr (?E + N)"
        using E48 by (intro blk_reads(3)[OF _ N(3) N(2)]) simp_all
      moreover have "HDRP (ptr (?E + N)) = ptr (?E + N - 4)" using E48 by (intro hdrp_ptr) simp
      moreover have "PACK 0 1 = tag 0 True" using tag_PACK(2)[of 0] by simp
      ultimately show "PUT (HDRP (NEXT_BLKP s3 (mem_brk s))) (PACK 0 1) s3 = s4"
        unfolding brk s4_def by simp
    qed
    have bf: "?E \<notin> set fl" using mem[of ?E] by auto
    have fs4: "set fl = set (frees (first_block s4) (bl @ (N, False) # [])) - {?E}"
      unfolding fs sts using frees_bounds[OF ok, of ?E "first_block s"] by (auto simp: frees_append)
    have "\<exists>b' s'. coalesce (ptr ?E) s4 = (ptr b', s') \<and> free_at s' b' N"
      using na by (intro coalesce_spec[OF h _ bf fs4]) (simp_all add: sts)
    then show ?thesis unfolding eq .
  qed
qed

lemma frees_split:
  "x \<in> set (frees a bs) \<Longrightarrow> \<exists>pre n post. bs = pre @ (n, False) # post \<and> x = a + total_size pre"
proof (induction bs arbitrary: a)
  case Nil
  then show ?case by simp
next
  case (Cons p bs)
  obtain n al where p: "p = (n, al)" by (cases p)
  show ?case
  proof (cases "x = a \<and> \<not> al")
    case True
    then have "p # bs = [] @ (n, False) # bs \<and> x = a + total_size []" using p by simp
    then show ?thesis by blast
  next
    case False
    then have "x \<in> set (frees (a + n) bs)" using Cons.prems p by (auto split: if_splits)
    from Cons.IH[OF this] obtain pre m post where
      "bs = pre @ (m, False) # post" "x = a + n + total_size pre" by blast
    then have "p # bs = (p # pre) @ (m, False) # post \<and> x = a + total_size (p # pre)"
      using p by simp
    then show ?thesis by blast
  qed
qed

lemma find_fit_dll:
  assumes e: "GET_ALLOC s (HDRP (ptr h)) \<noteq> 0"
  shows "dll s p c xs (ptr h) \<Longrightarrow> (\<forall>x\<in>set xs. GET_ALLOC s (HDRP (ptr x)) = 0) \<Longrightarrow>
     \<exists>r. find_fit_loop s asize c = Some r \<and>
       (r = NULL \<or> (\<exists>x\<in>set xs. r = ptr x \<and> asize \<le> GET_SIZE s (HDRP (ptr x))))"
proof (induction xs arbitrary: p c)
  case Nil
  then have "c = ptr h" by simp
  then show ?case using e by (subst find_fit_loop.simps) simp
next
  case (Cons x xs)
  from Cons.prems have c: "c = ptr x" and d: "dll s (ptr x) (RD64 s (x + 8)) xs (ptr h)"
    and f: "GET_ALLOC s (HDRP (ptr x)) = 0" and r: "\<forall>y\<in>set xs. GET_ALLOC s (HDRP (ptr y)) = 0"
    by simp_all
  show ?case
  proof (cases "asize \<le> GET_SIZE s (HDRP (ptr x))")
    case True
    then have "find_fit_loop s asize c = Some (ptr x)"
      unfolding c using f by (subst find_fit_loop.simps) simp
    then show ?thesis using True by simp
  next
    case False
    then have "find_fit_loop s asize c = find_fit_loop s asize (RD64 s (x + 8))"
      unfolding c using f by (subst find_fit_loop.simps) (simp add: links_ptr)
    then show ?thesis using Cons.IH[OF d r] by auto
  qed
qed

lemma find_fit_good:
  assumes gd: "good s bl fl"
  shows "\<exists>r. find_fit asize s = Some r \<and>
     (r = NULL \<or> (\<exists>pre n post. bl = pre @ (n, False) # post \<and> r = ptr (first_block s + total_size pre)
         \<and> unat asize \<le> n))"
proof -
  from gd have h: "hinv s bl fl" and fs: "set fl = set (frees (first_block s) bl)" unfolding good_def by auto
  note d = hinvD[OF h]
  have dl: "dll s NULL (list_root s) fl (ptr (arena_start s + 8))" using d(1) unfolding linv_def by simp
  have t0: "GET s (ptr (arena_start s + 4)) = tag 24 True" using d(2) unfolding ctx_def by (rule conjunct1)
  have e4: "arena_start s + 8 - 4 = arena_start s + 4" by simp
  have t: "GET s (ptr (arena_start s + 8 - 4)) = tag 24 True" unfolding e4 by (rule t0)
  have e: "GET_ALLOC s (HDRP (ptr (arena_start s + 8))) \<noteq> 0"
    using blk_reads(2)[OF t, of] by simp
  have blk: "\<exists>pre n post. bl = pre @ (n, False) # post \<and> x = first_block s + total_size pre"
    if "x \<in> set fl" for x using that fs frees_split[of x "first_block s" bl] by simp
  have fr: "\<forall>x\<in>set fl. GET_ALLOC s (HDRP (ptr x)) = 0"
  proof
    fix x assume "x \<in> set fl"
    from blk[OF this] obtain pre n post where bl: "bl = pre @ (n, False) # post"
      and x: "x = first_block s + total_size pre" by blast
    show "GET_ALLOC s (HDRP (ptr x)) = 0" using block_reads(3)[OF h[unfolded bl] x] by simp
  qed
  from find_fit_dll[OF e dl fr, of asize] obtain r where
    r: "find_fit_loop s asize (list_root s) = Some r"
    and c: "r = NULL \<or> (\<exists>x\<in>set fl. r = ptr x \<and> asize \<le> GET_SIZE s (HDRP (ptr x)))" by blast
  have "r = NULL \<or> (\<exists>pre n post. bl = pre @ (n, False) # post \<and> r = ptr (first_block s + total_size pre)
         \<and> unat asize \<le> n)"
  proof (cases "r = NULL")
    case True
    then show ?thesis by simp
  next
    case False
    with c obtain x where xf: "x \<in> set fl" and rx: "r = ptr x"
      and le: "asize \<le> GET_SIZE s (HDRP (ptr x))" by blast
    from blk[OF xf] obtain pre n post where bl: "bl = pre @ (n, False) # post"
      and x: "x = first_block s + total_size pre" by blast
    have "GET_SIZE s (HDRP (ptr x)) = of_nat n" using block_reads(2)[OF h[unfolded bl] x] .
    moreover have "unat (of_nat n :: u32) = n"
      using block_facts(3)[OF h[unfolded bl] x] by (rule unat_of_nat32)
    ultimately have "unat asize \<le> n" using le by (simp add: word_le_nat_alt)
    then show ?thesis using bl x rx by blast
  qed
  then show ?thesis unfolding find_fit_def using r by simp
qed

lemma malloc_zero: "mm_malloc 0 s = Some (NULL, s)"
  by (simp add: mm_malloc_def)

lemma malloc_eq:
  assumes "sz \<noteq> 0"
    and "(if ALIGN (ucast sz) + DSIZE < HEAP_SIZE then HEAP_SIZE else ALIGN (ucast sz) + DSIZE :: addr)
           = asize"
    and "(ucast asize :: u32) = a32"
  shows "mm_malloc sz s =
     (case find_fit a32 s of None \<Rightarrow> None
      | Some bp \<Rightarrow> if bp \<noteq> NULL then Some (bp, place bp a32 s)
          else (let (bp, s1) = extend_heap (ucast ((scast (MAX_int a32 CHUNKSIZE) :: addr) div WSIZE)) s
                in if bp = NULL then Some (NULL, s1) else Some (bp, place bp a32 s1)))"
  unfolding mm_malloc_def Let_def assms(2) assms(3) using assms(1) by (simp add: word_le_0_iff)

lemma mm_malloc_spec:
  assumes gd: "good s bl fl" and sz: "unat sz + 16 \<le> 2 ^ 31"
  shows "\<exists>p s'. mm_malloc sz s = Some (p, s') \<and> heap_ok s'"
proof (cases "sz = 0")
  case True
  have "heap_ok s" unfolding heap_ok_def using gd by blast
  then show ?thesis using True malloc_zero by simp
next
  case False
  from asize_facts[OF sz] obtain asz where
    as: "(if ALIGN (ucast sz) + DSIZE < HEAP_SIZE then HEAP_SIZE else ALIGN (ucast sz) + DSIZE :: addr)
           = of_nat asz"
    and a: "24 \<le> asz" "8 dvd asz" "asz < 2 ^ 31" by blast
  let ?a32 = "of_nat asz :: u32"
  let ?N = "max asz 4096"
  let ?words = "ucast ((scast (MAX_int ?a32 CHUNKSIZE) :: addr) div WSIZE) :: u32"
  have a32lt: "asz < 2 ^ 32" using a(3) by (rule less_trans) simp
  have ua: "unat ?a32 = asz" using a32lt by (rule unat_of_nat32)
  note eq = malloc_eq[OF False as ucast_of_nat_64_32, of s]
  have N: "24 \<le> ?N" "8 dvd ?N" "?N < 2 ^ 31" "?N < 2 ^ 32" using a by (auto simp: max_def)
  have wd: "?words = of_nat (?N div 4)"
    unfolding max_chunk[OF a(3)] scast_of_nat32[OF N(3)] by (rule words_of[OF N(2) N(4)])
  note w = words_even[OF N(2) N(4) wd]
  from find_fit_good[OF gd, of ?a32] obtain r where r: "find_fit ?a32 s = Some r"
    and c: "r = NULL \<or> (\<exists>pre n post. bl = pre @ (n, False) # post \<and> r = ptr (first_block s + total_size pre)
         \<and> unat ?a32 \<le> n)" by blast
  show ?thesis
  proof (cases "r = NULL")
    case rn: True
    show ?thesis
    proof (cases "first_block s + total_size bl + ?N \<le> unat (mem_max_addr s)")
      case True
      from extend_heap_spec(1)[OF good_xinv[OF gd] N(1,2,4) w True] obtain b' s1 where
        ex: "extend_heap ?words s = (ptr b', s1)" and fa: "free_at s1 b' ?N" by blast
      from fa obtain pre n' post fl' where g1: "good s1 (pre @ (n', False) # post) fl'"
        and b': "b' = first_block s1 + total_size pre" and le: "?N \<le> n'" unfolding free_at_def by blast
      have "asz \<le> n'" using le by simp
      then have "heap_ok (place (ptr b') ?a32 s1)" using place_spec[OF g1 b' a(1,2)] by simp
      then show ?thesis unfolding eq r using rn ex free_at_nonnull[OF fa] by simp
    next
      case False
      have "heap_ok s" unfolding heap_ok_def using gd by blast
      then show ?thesis unfolding eq r using rn extend_heap_spec(2)[OF good_xinv[OF gd] N(1,2,4) w False]
        by simp
    qed
  next
    case False
    with c obtain pre n post where bl: "bl = pre @ (n, False) # post"
      and rp: "r = ptr (first_block s + total_size pre)" and le: "unat ?a32 \<le> n" by blast
    have "asz \<le> n" using le ua by simp
    then have "heap_ok (place r ?a32 s)" unfolding rp using place_spec[OF gd[unfolded bl] refl a(1,2)] by simp
    then show ?thesis unfolding eq r using False by simp
  qed
qed

definition fresh :: "heap \<Rightarrow> bool" where
  "fresh s = (mem_brk s = mem_start_brk s \<and> 0 < unat (mem_start_brk s) \<and>
     unat (mem_max_addr s) < unat (mem_start_brk s) + 2 ^ 32 \<and>
     GET_SIZE s (mem_start_brk s + 40) = 0)"

lemma hl_upd [simp]:
  "GET (s\<lparr>heap_listp := r\<rparr>) p = GET s p" "RD64 (s\<lparr>heap_listp := r\<rparr>) x = RD64 s x"
  "arena_start (s\<lparr>heap_listp := r\<rparr>) = arena_start s" "first_block (s\<lparr>heap_listp := r\<rparr>) = first_block s"
  "arena_start (s\<lparr>list_root := r\<rparr>) = arena_start s" "first_block (s\<lparr>list_root := r\<rparr>) = first_block s"
  by (simp_all add: GET_def RD64_def arena_start_def first_block_def)

lemma RD64_GET: "RD64 s x = ucast (GET s (ptr x)) OR push_bit 32 (ucast (GET s (ptr (x + 4))))"
  unfolding RD64_def rd64_def GET_def using ptr_add_numeral[of x "num.Bit0 (num.Bit0 num.One)"]
  by simp

lemma mm_init_c:
  assumes "mem_sbrk (2 * HEAP_SIZE) s = (p, s0)" and "p \<noteq> NULL"
    and "PUT p 0 (s0\<lparr>heap_listp := p\<rparr>) = s2"
    and "PUT (p + WSIZE) (PACK HEAP_SIZE 1) s2 = s3"
    and "PUT (p + HEAP_SIZE) (PACK HEAP_SIZE 1) s3 = s4"
    and "PUT (p + WSIZE + HEAP_SIZE) (PACK 0 1) s4 = s5"
    and "PUT (p + DSIZE + DSIZE) 0 (s5\<lparr>heap_listp := p + DSIZE\<rparr>) = s7"
    and "PUT (p + DSIZE + DSIZE + WSIZE) 0 s7 = s8"
    and "s8\<lparr>list_root := p + DSIZE\<rparr> = s9"
  shows "mm_init s = (case extend_heap (CHUNKSIZE div DSIZE) s9 of
                        (bp, s10) \<Rightarrow> if bp = NULL then (- 1, s10) else (0, s10))"
proof -
  have 2: "heap_listp s2 = p" using assms(3) by auto
  have 3: "heap_listp s3 = p" using assms(4) 2 by auto
  have 4: "heap_listp s4 = p" using assms(5) 3 by auto
  have 5: "heap_listp s5 = p" using assms(6) 4 by auto
  have 7: "heap_listp s7 = p + DSIZE" using assms(7) by auto
  have 8: "heap_listp s8 = p + DSIZE" using assms(8) 7 by auto
  have e1: "heap_listp (s0\<lparr>heap_listp := p\<rparr>) = p"
    and e6: "heap_listp (s5\<lparr>heap_listp := p + DSIZE\<rparr>) = p + DSIZE" by simp_all
  show ?thesis
    unfolding mm_init_def assms(1) Let_def prod.case e1 e6 assms(3-9) 2 3 4 5 7 8
    using assms(2) by simp
qed

lemma init_words: "(ucast (if (CHUNKSIZE div DSIZE :: u32) mod 2 \<noteq> 0
     then ((CHUNKSIZE div DSIZE :: u32) + 1) * WSIZE else (CHUNKSIZE div DSIZE :: u32) * WSIZE) :: addr)
       = of_nat 2048"
  by (simp add: CHUNKSIZE_def DSIZE_def WSIZE_def)

lemma mm_init_fail:
  assumes "\<not> unat (mem_brk s) + 48 \<le> unat (mem_max_addr s)"
  shows "fst (mm_init s) \<noteq> 0"
proof -
  let ?p = "- 1 :: addr"
  define s2 where "s2 = PUT ?p 0 (s\<lparr>heap_listp := ?p\<rparr>)"
  define s3 where "s3 = PUT (?p + WSIZE) (PACK HEAP_SIZE 1) s2"
  define s4 where "s4 = PUT (?p + HEAP_SIZE) (PACK HEAP_SIZE 1) s3"
  define s5 where "s5 = PUT (?p + WSIZE + HEAP_SIZE) (PACK 0 1) s4"
  define s7 where "s7 = PUT (?p + DSIZE + DSIZE) 0 (s5\<lparr>heap_listp := ?p + DSIZE\<rparr>)"
  define s8 where "s8 = PUT (?p + DSIZE + DSIZE + WSIZE) 0 s7"
  define s9 where "s9 = s8\<lparr>list_root := ?p + DSIZE\<rparr>"
  have u: "unat (2 * HEAP_SIZE :: addr) = 48" by (simp add: HEAP_SIZE_def)
  have sb: "mem_sbrk (2 * HEAP_SIZE) s = (?p, s)" unfolding mem_sbrk_def u using assms by simp
  have ne: "?p \<noteq> NULL" by (simp add: NULL_def)
  note eq = mm_init_c[OF sb ne s2_def[symmetric] s3_def[symmetric] s4_def[symmetric]
      s5_def[symmetric] s7_def[symmetric] s8_def[symmetric] s9_def[symmetric]]
  have f: "mem_brk s9 = mem_brk s" "mem_max_addr s9 = mem_max_addr s"
    unfolding s9_def s8_def s7_def s5_def s4_def s3_def s2_def by simp_all
  have "unat (of_nat 2048 :: addr) = 2048" by simp
  then have "\<not> unat (mem_brk s9) + unat (of_nat 2048 :: addr) \<le> unat (mem_max_addr s9)"
    unfolding f using assms by simp
  from extend_fail[OF init_words this] show ?thesis unfolding eq by simp
qed

lemma mm_init_spec:
  assumes f: "fresh s0" and r: "mm_init s0 = (0, s)"
  shows "heap_ok s"
proof (cases "unat (mem_brk s0) + 48 \<le> unat (mem_max_addr s0)")
  case False
  then show ?thesis using mm_init_fail[OF False] r by simp
next
  case room: True
  let ?st = "arena_start s0"
  have sb: "mem_start_brk s0 = ptr ?st" by (simp add: arena_start_def ptr_unat)
  from f have f1: "mem_brk s0 = mem_start_brk s0" and pos: "0 < ?st"
    and mx: "unat (mem_max_addr s0) < ?st + 2 ^ 32"
    and gap0: "GET_SIZE s0 (mem_start_brk s0 + 40) = 0"
    unfolding fresh_def arena_start_def by simp_all
  have brk: "mem_brk s0 = ptr ?st" unfolding f1 by (rule sb)
  have stlt: "?st < 2 ^ 64" unfolding arena_start_def using unat64_lt[of "mem_start_brk s0"] by simp
  have ub: "unat (mem_brk s0) = ?st" unfolding brk using stlt by (rule unat_ptr)
  have room': "?st + 48 \<le> unat (mem_max_addr s0)" using room ub by simp
  have lt48: "?st + 48 < 2 ^ 64" using room' unat_max_lt[of s0] by simp
  have gap: "GET_SIZE s0 (ptr (?st + 40)) = 0"
    using gap0 unfolding sb using ptr_add_numeral[of ?st "num.Bit0 (num.Bit0 (num.Bit0 (num.Bit1 (num.Bit0 num.One))))"]
    by simp
  define s1 where "s1 = s0\<lparr>mem_brk := ptr (?st + 48)\<rparr>"
  define s2 where "s2 = PUT (ptr ?st) 0 (s1\<lparr>heap_listp := ptr ?st\<rparr>)"
  define s3 where "s3 = PUT (ptr (?st + 4)) (tag 24 True) s2"
  define s4 where "s4 = PUT (ptr (?st + 24)) (tag 24 True) s3"
  define s5 where "s5 = PUT (ptr (?st + 28)) (tag 0 True) s4"
  define s7 where "s7 = PUT (ptr (?st + 16)) 0 (s5\<lparr>heap_listp := ptr (?st + 8)\<rparr>)"
  define s8 where "s8 = PUT (ptr (?st + 20)) 0 s7"
  define s9 where "s9 = s8\<lparr>list_root := ptr (?st + 8)\<rparr>"
  note defs = s9_def s8_def s7_def s5_def s4_def s3_def s2_def s1_def
  have t24: "PACK HEAP_SIZE 1 = tag 24 True" "PACK 0 1 = tag 0 True"
    using tag_PACK(2)[of 24] tag_PACK(2)[of 0] by (simp_all add: HEAP_SIZE_def)
  have pa: "ptr ?st + WSIZE = ptr (?st + 4)" "ptr ?st + HEAP_SIZE = ptr (?st + 24)"
    "ptr (?st + 4) + HEAP_SIZE = ptr (?st + 28)" "ptr ?st + DSIZE = ptr (?st + 8)"
    "ptr (?st + 8) + DSIZE = ptr (?st + 16)" "ptr (?st + 16) + WSIZE = ptr (?st + 20)"
    "ptr ?st + 2 * HEAP_SIZE = ptr (?st + 48)"
    by (simp_all add: WSIZE_def HEAP_SIZE_def DSIZE_def ptr_def)
  have eq: "mm_init s0 = (case extend_heap (CHUNKSIZE div DSIZE) s9 of
                        (bp, s10) \<Rightarrow> if bp = NULL then (- 1, s10) else (0, s10))"
  proof (rule mm_init_c[where p = "ptr ?st" and ?s0.0 = s1 and ?s2.0 = s2 and ?s3.0 = s3
        and ?s4.0 = s4 and ?s5.0 = s5 and ?s7.0 = s7 and ?s8.0 = s8])
    have u: "unat (2 * HEAP_SIZE :: addr) = 48" by (simp add: HEAP_SIZE_def)
    show "mem_sbrk (2 * HEAP_SIZE) s0 = (ptr ?st, s1)"
      unfolding mem_sbrk_def u s1_def using room by (simp add: brk pa(7))
    show "ptr ?st \<noteq> NULL" using ptr_eq_NULL[OF stlt] pos by simp
    show "PUT (ptr ?st) 0 (s1\<lparr>heap_listp := ptr ?st\<rparr>) = s2" by (simp add: s2_def)
    show "PUT (ptr ?st + WSIZE) (PACK HEAP_SIZE 1) s2 = s3" unfolding pa t24 s3_def ..
    show "PUT (ptr ?st + HEAP_SIZE) (PACK HEAP_SIZE 1) s3 = s4" unfolding pa t24 s4_def ..
    show "PUT (ptr ?st + WSIZE + HEAP_SIZE) (PACK 0 1) s4 = s5" unfolding pa t24 s5_def ..
    show "PUT (ptr ?st + DSIZE + DSIZE) 0 (s5\<lparr>heap_listp := ptr ?st + DSIZE\<rparr>) = s7"
      unfolding pa s7_def ..
    show "PUT (ptr ?st + DSIZE + DSIZE + WSIZE) 0 s7 = s8" unfolding pa s8_def ..
    show "s8\<lparr>list_root := ptr ?st + DSIZE\<rparr> = s9" unfolding pa s9_def ..
  qed
  have fld: "mem_start_brk s9 = mem_start_brk s0" "mem_brk s9 = ptr (?st + 48)"
    "mem_max_addr s9 = mem_max_addr s0" "heap_listp s9 = ptr (?st + 8)"
    "list_root s9 = ptr (?st + 8)"
    unfolding defs by simp_all
  have st9: "arena_start s9 = ?st" "first_block s9 = ?st + 48" using fld(1) by (simp_all add: arena_start_def first_block_def)
  have cbs: "cb c" if "c + 4 \<le> ?st + 48" for c using that lt48 unfolding cb_def by simp
  have o1: "GET (PUT (ptr y) v s') (ptr c) = GET s' (ptr c)" if "c + 4 \<le> y" "y + 4 \<le> ?st + 48"
    for y c v s' using that by (intro GET_PUT_o(1) cbs) simp_all
  have o2: "GET (PUT (ptr y) v s') (ptr c) = GET s' (ptr c)" if "y + 4 \<le> c" "c + 4 \<le> ?st + 48"
    for y c v s' using that by (intro GET_PUT_o(2) cbs) simp_all
  have g4: "GET s9 (ptr (?st + 4)) = tag 24 True"
    unfolding s9_def s8_def s7_def s5_def s4_def s3_def by (simp add: o1 GET_PUT_same)
  have g40: "GET s9 (ptr (?st + 40)) = GET s0 (ptr (?st + 40))"
    unfolding defs by (simp add: o2)
  have g16: "GET s9 (ptr (?st + 16)) = 0"
    unfolding s9_def s8_def s7_def by (simp add: o1 GET_PUT_same)
  have g20: "GET s9 (ptr (?st + 20)) = 0"
    unfolding s9_def s8_def by (simp add: GET_PUT_same)
  have e20: "?st + 16 + 4 = ?st + 20" by simp
  have rd: "RD64 s9 (?st + 16) = NULL" unfolding RD64_GET e20 g16 g20 by (simp add: NULL_def)
  have l: "linv s9 [] []"
    unfolding linv_def geo_def using fld pos room' mx rd by (simp add: st9)
  have x: "xinv s9 [] []"
    unfolding xinv_def using l g4 g40 gap by (simp add: st9 GET_SIZE_def)
  show ?thesis
  proof (cases "first_block s9 + total_size [] + 2048 \<le> unat (mem_max_addr s9)")
    case True
    from extend_heap_spec(1)[OF x _ _ _ init_words True] obtain b' s' where
      ex: "extend_heap (CHUNKSIZE div DSIZE) s9 = (ptr b', s')" and fa: "free_at s' b' 2048"
      by auto
    have "mm_init s0 = (0, s')" unfolding eq ex using free_at_nonnull[OF fa] by simp
    then have "s = s'" using r by simp
    then show ?thesis using free_at_inv[OF fa] by simp
  next
    case False
    have "extend_heap (CHUNKSIZE div DSIZE) s9 = (NULL, s9)"
      using extend_heap_spec(2)[OF x _ _ _ init_words False] by simp
    then have "fst (mm_init s0) = - 1" unfolding eq by simp
    then show ?thesis using r by simp
  qed
qed

section \<open>Runs of allocations and deallocations\<close>

text \<open>
  \<open>run_ops\<close> serves a list of requests: an allocation of at most \<open>2^31 - 16\<close> bytes, or
  the deallocation of a block that the walk of the heap finds allocated. The blocks
  and the registry that the observers read off a heap that satisfies the invariant are
  those of its layout.
\<close>

fun blocks_of :: "nat \<Rightarrow> (nat \<times> bool) list \<Rightarrow> (addr \<times> u32 \<times> bool) list" where
  "blocks_of a [] = []"
| "blocks_of a ((n, al) # bs) = (ptr a, of_nat n, al) # blocks_of (a + n) bs"

datatype request = Malloc u32 | Free addr

fun run_ops :: "request list \<Rightarrow> heap \<Rightarrow> heap option" where
  "run_ops [] s = Some s"
| "run_ops (Malloc sz # rs) s =
     (if unat sz + 16 \<le> 2 ^ 31
      then (case mm_malloc sz s of None \<Rightarrow> None | Some (p, s') \<Rightarrow> run_ops rs s')
      else None)"
| "run_ops (Free p # rs) s =
     (case heap_blocks s of None \<Rightarrow> None
      | Some bs \<Rightarrow> if list_ex (\<lambda>(q, n, al). q = p \<and> al) bs then run_ops rs (mm_free p s)
                   else None)"

lemma walk_tags:
  "sizes_ok bs \<Longrightarrow> tags_at s a bs \<Longrightarrow> GET s (ptr (a + total_size bs - 4)) = tag 0 True \<Longrightarrow>
   4 \<le> a \<Longrightarrow> total_size bs < 2 ^ 32 \<Longrightarrow> walk_blocks s (ptr a) = Some (blocks_of a bs)"
proof (induction bs arbitrary: a)
  case Nil
  then have g: "GET s (ptr (a - 4)) = tag 0 True" by simp
  have "GET_SIZE s (HDRP (ptr a)) = of_nat 0" using Nil.prems(4) by (intro blk_reads(1)[OF g]) simp_all
  then show ?case by (subst walk_blocks.simps) simp
next
  case (Cons p bs)
  obtain n al where p: "p = (n, al)" by (cases p)
  from Cons.prems p have ok: "sizes_ok bs" and n: "24 \<le> n" "8 dvd n" "n < 2 ^ 32"
    and g: "GET s (ptr (a - 4)) = tag n al" and t: "tags_at s (a + n) bs"
    and e: "GET s (ptr (a + n + total_size bs - 4)) = tag 0 True" and tot: "total_size bs < 2 ^ 32"
    by (simp_all add: add.assoc)
  note r = blk_reads[OF g n(3) n(2) Cons.prems(4)]
  have "unat (of_nat n :: u32) = n" using n(3) by (rule unat_of_nat32)
  then have nz: "(of_nat n :: u32) \<noteq> 0" using n(1) by auto
  have ih: "walk_blocks s (ptr (a + n)) = Some (blocks_of (a + n) bs)"
    using Cons.prems(4) by (intro Cons.IH[OF ok t e _ tot]) simp
  show ?case
    unfolding p by (subst walk_blocks.simps) (simp add: r(1,2,3) nz ih)
qed

lemma registry_dll:
  "dll s p c xs (ptr h) \<Longrightarrow> RD64 s (h + 8) = NULL \<Longrightarrow> (\<forall>x\<in>set xs. ptr x \<noteq> NULL) \<Longrightarrow>
   ptr h \<noteq> NULL \<Longrightarrow> registry_from s c = Some (map ptr xs @ [ptr h])"
proof (induction xs arbitrary: p c)
  case Nil
  then have c: "c = ptr h" by simp
  have "registry_from s NULL = Some []" by (subst registry_from.simps) simp
  then show ?case unfolding c using Nil.prems(2,4)
    by (subst registry_from.simps) (simp add: links_ptr)
next
  case (Cons x xs)
  from Cons.prems have c: "c = ptr x" and d: "dll s (ptr x) (RD64 s (x + 8)) xs (ptr h)"
    and nz: "ptr x \<noteq> NULL" and r: "\<forall>y\<in>set xs. ptr y \<noteq> NULL" by simp_all
  note ih = Cons.IH[OF d Cons.prems(2) r Cons.prems(4)]
  show ?case unfolding c using nz ih by (subst registry_from.simps) (simp add: links_ptr)
qed

lemma good_members:
  assumes gd: "good s bl fl" and x: "x \<in> set fl"
  shows "first_block s \<le> x" "x < 2 ^ 64"
proof -
  from gd have h: "hinv s bl fl" unfolding good_def by simp
  note d = hinvD[OF h]
  have b: "first_block s \<le> x \<and> x + 24 \<le> first_block s + total_size bl" using starts_bounds[OF d(4), of x "first_block s"] d(6) x by auto
  then show "first_block s \<le> x" by simp
  show "x < 2 ^ 64" using geo_lt[OF d(3), of x] b by simp
qed

lemma good_observed:
  assumes gd: "good s bl fl"
  shows "heap_blocks s = Some (blocks_of (first_block s) bl)"
    and "registry s = Some (map ptr fl @ [heap_listp s])"
    and "unat (mem_brk s) - unat (mem_start_brk s) = total_size bl + 48"
    and "heap_listp s \<notin> ptr ` set fl" and "inj_on ptr (set fl)"
proof -
  from gd have h: "hinv s bl fl" unfolding good_def by simp
  note d = hinvD[OF h]
  from d(2) have tg: "tags_at s (first_block s) bl" and ep: "GET s (ptr (first_block s + total_size bl - 4)) = tag 0 True"
    unfolding ctx_def by simp_all
  have sb: "mem_start_brk s = ptr (arena_start s)" by (simp add: arena_start_def ptr_unat)
  have fb: "first_blkp s = ptr (first_block s)" unfolding first_blkp_def sb first_block_def HEAP_SIZE_def
    by (simp add: ptr_def)
  show "heap_blocks s = Some (blocks_of (first_block s) bl)"
    unfolding heap_blocks_def fb by (rule walk_tags[OF d(4) tg ep _ d(7)]) (simp add: first_block_def)
  from d(1) have dl: "dll s NULL (list_root s) fl (ptr (arena_start s + 8))"
    and z: "RD64 s (arena_start s + 16) = NULL" and g: "geo s (first_block s + total_size bl)" unfolding linv_def by auto
  from g have hl: "heap_listp s = ptr (arena_start s + 8)" and pos: "1 \<le> arena_start s"
    and brk: "mem_brk s = ptr (first_block s + total_size bl)" unfolding geo_def by auto
  have hlt: "arena_start s + 8 < 2 ^ 64" using geo_lt[OF g, of "arena_start s + 8"] by (simp add: first_block_def)
  have hn: "ptr (arena_start s + 8) \<noteq> NULL" using ptr_eq_NULL[OF hlt] by simp
  have mn: "\<forall>x\<in>set fl. ptr x \<noteq> NULL"
  proof
    fix x assume x: "x \<in> set fl"
    show "ptr x \<noteq> NULL" using ptr_eq_NULL[OF good_members(2)[OF gd x]] good_members(1)[OF gd x]
      by (simp add: first_block_def)
  qed
  have z': "RD64 s (arena_start s + 8 + 8) = NULL" using z by (simp add: add.assoc)
  show "registry s = Some (map ptr fl @ [heap_listp s])"
    unfolding registry_def hl by (rule registry_dll[OF dl z' mn hn])
  have "first_block s + total_size bl < 2 ^ 64" using geo_lt[OF g, of "first_block s + total_size bl"] by simp
  then have "unat (mem_brk s) = first_block s + total_size bl" unfolding brk by (rule unat_ptr)
  then show "unat (mem_brk s) - unat (mem_start_brk s) = total_size bl + 48"
    by (simp add: first_block_def arena_start_def)
  show "heap_listp s \<notin> ptr ` set fl"
  proof
    assume "heap_listp s \<in> ptr ` set fl"
    then obtain x where x: "x \<in> set fl" and e: "ptr (arena_start s + 8) = ptr x" unfolding hl by auto
    have "arena_start s + 8 = x" using ptr_inj[OF hlt good_members(2)[OF gd x]] e by simp
    then show False using good_members(1)[OF gd x] by (simp add: first_block_def)
  qed
  show "inj_on ptr (set fl)"
  proof (rule inj_onI)
    fix x y assume "x \<in> set fl" "y \<in> set fl" "ptr x = ptr y"
    then show "x = y" using ptr_inj[OF good_members(2)[OF gd] good_members(2)[OF gd], of x y] by simp
  qed
qed

lemma blocks_free_set:
  "{p. \<exists>n. (p, n, False) \<in> set (blocks_of a bs)} = ptr ` set (frees a bs)"
proof (induction bs arbitrary: a)
  case Nil
  show ?case by simp
next
  case (Cons p bs)
  obtain n al where p: "p = (n, al)" by (cases p)
  show ?case using Cons.IH[of "a + n"] unfolding p by (cases al) auto
qed

lemma blocks_sum:
  "total_size bs < 2 ^ 32 \<Longrightarrow> sum_list (map (\<lambda>(p, n, al). unat n) (blocks_of a bs)) = total_size bs"
proof (induction bs arbitrary: a)
  case Nil
  show ?case by simp
next
  case (Cons p bs)
  obtain n al where p: "p = (n, al)" by (cases p)
  have n: "n < 2 ^ 32" "total_size bs < 2 ^ 32" using Cons.prems p by simp_all
  show ?case unfolding p using Cons.IH[OF n(2), of "a + n"] unat_of_nat32[OF n(1)] by simp
qed

lemma blocks_alloc_split:
  "list_ex (\<lambda>(q, n, al). q = p \<and> al) (blocks_of a bs) \<Longrightarrow>
   \<exists>pre m post. bs = pre @ (m, True) # post \<and> p = ptr (a + total_size pre)"
proof (induction bs arbitrary: a)
  case Nil
  then show ?case by simp
next
  case (Cons b bs)
  obtain n al where b: "b = (n, al)" by (cases b)
  show ?case
  proof (cases "p = ptr a \<and> al")
    case True
    then have "b # bs = [] @ (n, True) # bs \<and> p = ptr (a + total_size [])" using b by simp
    then show ?thesis by blast
  next
    case False
    then have "list_ex (\<lambda>(q, n, al). q = p \<and> al) (blocks_of (a + n) bs)"
      using Cons.prems b by auto
    from Cons.IH[OF this] obtain pre m post where
      "bs = pre @ (m, True) # post" "p = ptr (a + n + total_size pre)" by blast
    then have "b # bs = (b # pre) @ (m, True) # post \<and> p = ptr (a + total_size (b # pre))"
      using b by (simp add: add.assoc)
    then show ?thesis by blast
  qed
qed

lemma inv_run: "heap_ok s \<Longrightarrow> run_ops rs s = Some s' \<Longrightarrow> heap_ok s'"
proof (induction rs arbitrary: s)
  case Nil
  then show ?case by simp
next
  case (Cons r rs)
  from Cons.prems(1) obtain bl fl where gd: "good s bl fl" unfolding heap_ok_def by blast
  show ?case
  proof (cases r)
    case (Malloc sz)
    show ?thesis
    proof (cases "unat sz + 16 \<le> 2 ^ 31")
      case True
      from mm_malloc_spec[OF gd True] obtain p s1 where
        m: "mm_malloc sz s = Some (p, s1)" and i: "heap_ok s1" by blast
      have "run_ops rs s1 = Some s'" using Cons.prems(2) Malloc True m by simp
      then show ?thesis using Cons.IH[OF i] by simp
    next
      case False
      then show ?thesis using Cons.prems(2) Malloc by simp
    qed
  next
    case (Free p)
    note hb = good_observed(1)[OF gd]
    show ?thesis
    proof (cases "list_ex (\<lambda>(q, n, al). q = p \<and> al) (blocks_of (first_block s) bl)")
      case True
      from blocks_alloc_split[OF True] obtain pre m post where
        bl: "bl = pre @ (m, True) # post" and p: "p = ptr (first_block s + total_size pre)" by blast
      have i: "heap_ok (mm_free p s)" unfolding p by (rule mm_free_spec[OF gd[unfolded bl] refl])
      have "run_ops rs (mm_free p s) = Some s'" using Cons.prems(2) Free hb True by simp
      then show ?thesis using Cons.IH[OF i] by simp
    next
      case False
      then show ?thesis using Cons.prems(2) Free hb by simp
    qed
  qed
qed

lemma reached_inv:
  "fresh s0 \<Longrightarrow> mm_init s0 = (0, s1) \<Longrightarrow> run_ops rs s1 = Some s \<Longrightarrow> heap_ok s"
  using inv_run[OF mm_init_spec] by blast

section \<open>The boundary-tag codec\<close>

text \<open>
  Claim C10. The boundary-tag codec round-trips: for every size that is a multiple of 8
  and every allocated flag in {0, 1}, a tag written with \<^verbatim>\<open>PACK(size, flag)\<close> at an address
  is read back by \<^verbatim>\<open>GET_SIZE\<close> as the size and by \<^verbatim>\<open>GET_ALLOC\<close> as the flag.
\<close>

theorem pack_get_roundtrip:
  "8 dvd unat sz \<Longrightarrow> alloc = 0 \<or> alloc = 1 \<Longrightarrow>
   GET_SIZE (PUT p (PACK sz alloc) s) p = sz \<and> GET_ALLOC (PUT p (PACK sz alloc) s) p = alloc"
  unfolding GET_SIZE_def GET_ALLOC_def GET_PUT_same
  using pack_size[OF and7] pack_alloc[OF and7] by blast

theorem pack_get_roundtrip_witness:
  "8 dvd unat (24::u32) \<and> GET_SIZE (PUT 0x1004 (PACK 24 1) fresh_heap) 0x1004 = 24
   \<and> GET_ALLOC (PUT 0x1004 (PACK 24 1) fresh_heap) 0x1004 = 1"
  using pack_get_roundtrip[of 24 1 "0x1004" fresh_heap] by simp

section \<open>Zero-size requests and the null pointer\<close>

text \<open>
  Claim C9. \<^verbatim>\<open>mm_malloc(0)\<close> returns the null pointer and leaves the whole heap state
  (memory, hence every tag and link, the registry root and the heap extent) as it was.
\<close>

theorem malloc_zero_noop: "mm_malloc 0 s = Some (NULL, s)"
  by (simp add: mm_malloc_def)

lemma realloc_NULL:
  "mm_realloc NULL n s = map_option (\<lambda>(p, s'). (NULL, s')) (mm_malloc n s)"
  by (simp add: mm_realloc_def split: option.splits)

text \<open>
  Claim C3 says that \<^verbatim>\<open>mm_realloc\<close> with a null pointer returns the pointer that
  \<^verbatim>\<open>mm_malloc\<close> would return. On the heap just initialised, \<^verbatim>\<open>mm_malloc(1)\<close> returns
  \<open>0x1030\<close>, while \<^verbatim>\<open>mm_realloc(NULL, 1)\<close> performs the same allocation and returns the
  null pointer.
\<close>

theorem realloc_null_returns_null:
  "mm_malloc 1 heap1 = Some (0x1030, heap2) \<and> mm_realloc NULL 1 heap1 = Some (NULL, heap2)"
  by (simp add: realloc_NULL malloc1_heap1)

section \<open>Resizing in place\<close>

text \<open>
  What \<^verbatim>\<open>mm_realloc\<close> does keep in place: a request of \<open>sz > 0\<close> bytes with \<open>sz + 24\<close> at
  most the block's current size, 24 being \<^verbatim>\<open>HEAP_SIZE\<close>, the constant the code adds to the
  request. The pointer comes back and the whole heap state is unchanged.
\<close>

theorem realloc_fits_in_place:
  "bp \<noteq> NULL \<Longrightarrow> 0 < unat sz \<Longrightarrow> unat sz + 24 \<le> unat (GET_SIZE s (HDRP bp)) \<Longrightarrow>
   mm_realloc bp sz s = Some (bp, s)"
proof -
  assume a: "bp \<noteq> NULL" "0 < unat sz" "unat sz + 24 \<le> unat (GET_SIZE s (HDRP bp))"
  have nz: "sz \<noteq> 0" using a(2) by auto
  have lt: "unat sz + 24 < 2 ^ 32" using a(3) unat32_lt[of "GET_SIZE s (HDRP bp)"] by simp
  have "unat (sz + 24) = unat sz + 24" using lt by (simp add: unat_word_ariths)
  then have "(ucast (sz + 24) :: addr) \<le> ucast (GET_SIZE s (HDRP bp))"
    using a(3) by (simp add: word_le_nat_alt unat_ucast_up)
  then show ?thesis using a(1) nz
    by (simp add: mm_realloc_def HEAP_SIZE_def Let_def word_neq_0_conv)
qed

lemma heap3_block: "GET_SIZE heap3 (HDRP 0x1030) = 2048" "GET_ALLOC heap3 (HDRP 0x1030) = 1"
  by (simp_all add: heap3_def evals)

lemma heap2_block: "GET_SIZE heap2 (HDRP 0x1030) = 24" "GET_ALLOC heap2 (HDRP 0x1030) = 1"
  by (simp_all add: heap2_def evals)

theorem realloc_fits_in_place_witness:
  "0x1030 \<noteq> NULL \<and> 0 < unat (100::u32)
   \<and> unat (100::u32) + 24 \<le> unat (GET_SIZE heap3 (HDRP 0x1030))
   \<and> mm_realloc 0x1030 100 heap3 = Some (0x1030, heap3)"
  using realloc_fits_in_place[of "0x1030" 100 heap3] by (simp add: heap3_block NULL_def)

text \<open>
  Claim C4 says that resizing an allocated block to a size within its payload capacity
  (\<open>s + tag_overhead \<le> size\<close>, the tag overhead being the 8 bytes of \<^verbatim>\<open>OVERHEAD\<close>) returns
  the same pointer and leaves the blocks of the heap as they were. \<^verbatim>\<open>mm_realloc\<close> adds
  \<^verbatim>\<open>HEAP_SIZE\<close>, 24 bytes, to the request, where its own comment counts the two tag words,
  so a request that fits the payload can fall through to the growing paths. On \<open>heap2\<close>
  the block at \<open>0x1030\<close> is allocated and has 24 bytes; a request of 16 bytes fits, and
  the code merges the block with its free successor, to 2048 bytes. On \<open>hfree\<close> the block
  at \<open>0x1068\<close> is allocated and has 24 bytes; a request of 8 bytes fits, and the code
  moves the block to \<open>0x1030\<close>.
\<close>

theorem realloc_within_capacity_not_in_place:
  "GET_ALLOC heap2 (HDRP 0x1030) = 1 \<and> GET_SIZE heap2 (HDRP 0x1030) = 24
   \<and> unat (16::u32) + unat (OVERHEAD::u32) \<le> unat (GET_SIZE heap2 (HDRP 0x1030))
   \<and> mm_realloc 0x1030 16 heap2 = Some (0x1030, heap3)
   \<and> GET_SIZE heap3 (HDRP 0x1030) = 2048 \<and> heap3 \<noteq> heap2
   \<and> GET_ALLOC hfree (HDRP 0x1068) = 1 \<and> GET_SIZE hfree (HDRP 0x1068) = 24
   \<and> unat (8::u32) + unat (OVERHEAD::u32) \<le> unat (GET_SIZE hfree (HDRP 0x1068))
   \<and> mm_realloc 0x1068 8 hfree = Some (0x1030, hre)"
proof -
  have ne: "heap3 \<noteq> heap2"
  proof
    assume "heap3 = heap2"
    then have "GET_SIZE heap3 (HDRP 0x1030) = GET_SIZE heap2 (HDRP 0x1030)" by simp
    then show False by (simp add: heap3_block heap2_block)
  qed
  have y: "GET_ALLOC hfree (HDRP 0x1068) = 1" "GET_SIZE hfree (HDRP 0x1068) = 24"
    by (simp_all add: hfree_def evals)
  show ?thesis
    using ne y by (simp add: heap2_block heap3_block realloc16_heap2 run_re OVERHEAD_def)
qed

section \<open>Initialisation\<close>

text \<open>
  Claim C8 says that \<^verbatim>\<open>mm_init\<close> extends the heap by one default chunk, the constant
  \<^verbatim>\<open>CHUNKSIZE\<close> of 4096 bytes. On the fresh arena \<^verbatim>\<open>mm_init\<close> succeeds, and the heap
  has grown by the 48 bytes of the first request and by 2048 bytes, half a chunk
  (\<^verbatim>\<open>CHUNKSIZE/DSIZE\<close> words of \<^verbatim>\<open>WSIZE\<close> bytes): the free block that seeds the registry
  has 2048 bytes.
\<close>

theorem init_extends_by_half_chunk:
  "mm_init fresh_heap = (0, heap1)
   \<and> mem_brk heap1 = mem_brk fresh_heap + 2 * HEAP_SIZE + 2048
   \<and> list_root heap1 = 0x1030
   \<and> GET_SIZE heap1 (HDRP 0x1030) = 2048 \<and> GET_ALLOC heap1 (HDRP 0x1030) = 0
   \<and> (CHUNKSIZE :: u32) = 4096"
proof -
  have "GET_SIZE heap1 (HDRP 0x1030) = 2048" "GET_ALLOC heap1 (HDRP 0x1030) = 0"
    by (simp_all add: heap1_def evals)
  then show ?thesis
    by (simp add: init_fresh) (simp add: heap1_def fresh_heap_def HEAP_SIZE_def CHUNKSIZE_def)
qed

section \<open>First fit over the registry\<close>

lemma find_fit_first:
  "fwd_chain s c fl e \<Longrightarrow> (\<forall>b \<in> set fl. GET_ALLOC s (HDRP b) = 0) \<Longrightarrow> GET_ALLOC s (HDRP e) \<noteq> 0 \<Longrightarrow>
   find_fit_loop s asize c =
     Some (case find (\<lambda>b. asize \<le> GET_SIZE s (HDRP b)) fl of Some b \<Rightarrow> b | None \<Rightarrow> NULL)"
proof (induction fl arbitrary: c)
  case Nil
  then show ?case by (subst find_fit_loop.simps) simp
next
  case (Cons x xs)
  from Cons.prems have c: "c = x" and ch: "fwd_chain s (PRED s x) xs e"
    and fr: "GET_ALLOC s (HDRP x) = 0" and rest: "\<forall>b \<in> set xs. GET_ALLOC s (HDRP b) = 0"
    by simp_all
  show ?case
  proof (cases "asize \<le> GET_SIZE s (HDRP x)")
    case True
    then show ?thesis using c fr by (subst find_fit_loop.simps) simp
  next
    case False
    have "find_fit_loop s asize c = find_fit_loop s asize (PRED s x)"
      using False c fr by (subst find_fit_loop.simps) simp
    with Cons.IH[OF ch rest Cons.prems(3)] False show ?thesis by simp
  qed
qed


text \<open>
  Claim C6. The search of \<^verbatim>\<open>find_fit\<close> is first fit over the list order of the
  registry: when the list from \<^verbatim>\<open>list_root\<close> consists of the free blocks \<open>fl\<close>, in this
  order, followed by an allocated block (the prologue, which ends the search), \<^verbatim>\<open>find_fit\<close>
  returns the first block of \<open>fl\<close> whose size is at least \<open>asize\<close>, and the null pointer
  exactly when \<open>fl\<close> has no such block.
\<close>

theorem find_fit_is_first_fit:
  "fwd_chain s (list_root s) fl e \<Longrightarrow> (\<forall>b \<in> set fl. GET_ALLOC s (HDRP b) = 0) \<Longrightarrow>
   GET_ALLOC s (HDRP e) \<noteq> 0 \<Longrightarrow>
   find_fit asize s =
     Some (case find (\<lambda>b. asize \<le> GET_SIZE s (HDRP b)) fl of Some b \<Rightarrow> b | None \<Rightarrow> NULL)"
  unfolding find_fit_def by (rule find_fit_first)

lemma hfree_registry_facts:
  "fwd_chain hfree (list_root hfree) [0x1030, 0x1098] 0x1008"
  "GET_ALLOC hfree (HDRP 0x1030) = 0" "GET_ALLOC hfree (HDRP 0x1098) = 0"
  "GET_ALLOC hfree (HDRP 0x1008) = 1"
  "GET_SIZE hfree (HDRP 0x1030) = 56" "GET_SIZE hfree (HDRP 0x1098) = 1944"
  by (simp_all add: hfree_def evals)

theorem find_fit_is_first_fit_witness:
  "fwd_chain hfree (list_root hfree) [0x1030, 0x1098] 0x1008
   \<and> GET_ALLOC hfree (HDRP 0x1030) = 0 \<and> GET_ALLOC hfree (HDRP 0x1098) = 0
   \<and> GET_ALLOC hfree (HDRP 0x1008) \<noteq> 0
   \<and> find_fit 40 hfree = Some 0x1030 \<and> find_fit 100 hfree = Some 0x1098
   \<and> find_fit 4000 hfree = Some NULL"
proof -
  have c: "fwd_chain hfree (list_root hfree) [0x1030, 0x1098] 0x1008"
    by (rule hfree_registry_facts)
  have f: "\<forall>b \<in> set [0x1030, 0x1098]. GET_ALLOC hfree (HDRP b) = 0"
    by (simp add: hfree_registry_facts)
  have e: "GET_ALLOC hfree (HDRP 0x1008) \<noteq> 0"
    by (simp add: hfree_registry_facts)
  have r1: "find_fit 40 hfree = Some 0x1030"
    using find_fit_is_first_fit[OF c f e, of 40] by (simp add: hfree_registry_facts(5,6))
  have r2: "find_fit 100 hfree = Some 0x1098"
    using find_fit_is_first_fit[OF c f e, of 100] by (simp add: hfree_registry_facts(5,6))
  have r3: "find_fit 4000 hfree = Some NULL"
    using find_fit_is_first_fit[OF c f e, of 4000] by (simp add: hfree_registry_facts(5,6))
  show ?thesis using c e r1 r2 r3 by (simp add: hfree_registry_facts(2,3) del: fwd_chain.simps)
qed

section \<open>What the reallocate-and-copy path does\<close>

text \<open>
  Claim C7 says that no two physically adjacent blocks are both free after a public
  operation returns. In the second run, after \<^verbatim>\<open>mm_realloc(0x1068, 8)\<close> has returned, the
  blocks at \<open>0x1050\<close> and \<open>0x1068\<close> are adjacent and both free.
\<close>

theorem realloc_leaves_adjacent_free_blocks:
  "mm_init fresh_heap = (0, heap1) \<and> mm_malloc 48 heap1 = Some (0x1030, hx)
   \<and> mm_malloc 16 hx = Some (0x1068, hy) \<and> mm_malloc 8 hy = Some (0x1080, hz)
   \<and> mm_free 0x1030 hz = hfree \<and> mm_realloc 0x1068 8 hfree = Some (0x1030, hre)
   \<and> heap_blocks hre = Some [(0x1030, 32, True), (0x1050, 24, False), (0x1068, 24, False),
        (0x1080, 24, True), (0x1098, 1944, False)]"
  by (simp add: init_fresh run_x run_y run_z run_free run_re blocks_hre)

text \<open>
  Claim C5 says that the fallback of \<^verbatim>\<open>mm_realloc\<close> copies exactly
  \<open>min(needed, current_size)\<close> bytes. In the same call the old block has 24 bytes and
  \<open>needed\<close> is 32; the code copies 32 bytes. The new block at \<open>0x1030\<close> has 32 bytes, a
  payload of 24: the copy runs over its footer, which ends as the word found 24 bytes
  into the old payload (a word of the next block), and no longer equals its header.
\<close>

theorem realloc_copy_overruns:
  "mm_realloc 0x1068 8 hfree = Some (0x1030, hre)
   \<and> GET_SIZE hfree (HDRP 0x1068) = 24
   \<and> GET hre (HDRP 0x1030) = PACK 32 1 \<and> FTRP hre 0x1030 = 0x1030 + 24
   \<and> GET hfree (0x1068 + 24) = 0 \<and> GET hre (0x1030 + 24) = 0"
proof -
  have "GET_SIZE hfree (HDRP 0x1068) = 24" "GET hfree (0x1068 + 24) = 0"
    by (simp_all add: hfree_def evals)
  moreover have "GET hre (HDRP 0x1030) = PACK 32 1" "FTRP hre 0x1030 = 0x1030 + 24"
    "GET hre (0x1030 + 24) = 0"
    by (simp_all add: hre_def evals)
  ultimately show ?thesis by (simp add: run_re)
qed

section \<open>The registry and the sentinels\<close>

text \<open>
  \<^verbatim>\<open>mm_init\<close> makes the prologue the root of the list, and every block added later is
  linked in front of it: the prologue, which is allocated, is the last node of the
  registry and the sentinel at which \<^verbatim>\<open>find_fit\<close> stops. After \<^verbatim>\<open>mm_init\<close> the registry is
  the free block at \<open>0x1030\<close> followed by the prologue at \<open>0x1008\<close>.
\<close>

lemma prologue_ends_registry:
  "mm_init fresh_heap = (0, heap1) \<and> registry heap1 = Some [0x1030, 0x1008]
   \<and> heap_listp heap1 = 0x1008 \<and> GET_ALLOC heap1 (HDRP (heap_listp heap1)) = 1"
proof -
  have "heap_listp heap1 = 0x1008" "GET_ALLOC heap1 (HDRP 0x1008) = 1"
    by (simp_all add: heap1_def evals)
  then show ?thesis by (simp add: init_fresh registry_heap1)
qed

text \<open>
  The second run, as a list of requests, and the fresh arena it starts from.
\<close>

lemma blocks_hz: "heap_blocks hz = Some [(0x1030, 56, True), (0x1068, 24, True), (0x1080, 24, True), (0x1098, 1944, False)]"
  by (simp cong: let_weak_cong add: hz_def evals obs_evals)

lemma fresh_heap_fresh: "fresh fresh_heap"
  by (simp add: fresh_def fresh_heap_def GET_SIZE_def GET_def rd32_zero)

lemma run_hfree: "run_ops [Malloc 48, Malloc 16, Malloc 8, Free 0x1030] heap1 = Some hfree"
  by (simp add: run_x run_y run_z run_free blocks_hz)

text \<open>
  After \<^verbatim>\<open>mm_init\<close> on a fresh arena and any run of allocations and deallocations, the
  walk of the heap and the walk of the registry both end, the registry is a list without
  repetition of exactly the free blocks, followed by the prologue, and the prologue is
  not one of them.
\<close>

theorem registry_is_free_blocks:
  assumes "fresh s0" "mm_init s0 = (0, s1)" "run_ops rs s1 = Some s"
  shows "\<exists>bs r. heap_blocks s = Some bs \<and> registry s = Some (r @ [heap_listp s]) \<and> distinct r
     \<and> set r = {p. \<exists>n. (p, n, False) \<in> set bs} \<and> heap_listp s \<notin> set r"
proof -
  from reached_inv[OF assms] obtain bl fl where gd: "good s bl fl" unfolding heap_ok_def by blast
  note o = good_observed[OF gd]
  from gd have fs: "set fl = set (frees (first_block s) bl)" and h: "hinv s bl fl" unfolding good_def by auto
  have "distinct (map ptr fl)" using hinvD(5)[OF h] o(5) by (simp add: distinct_map)
  moreover have "set (map ptr fl) = {p. \<exists>n. (p, n, False) \<in> set (blocks_of (first_block s) bl)}"
    unfolding blocks_free_set using fs by simp
  moreover have "heap_listp s \<notin> set (map ptr fl)" using o(4) by simp
  ultimately show ?thesis using o(1,2) by blast
qed

text \<open>
  Claim C1 says that after every public operation, resize included, a block is a member
  of the registry if and only if its allocated bit is clear. After \<^verbatim>\<open>mm_realloc(0x1068, 8)\<close>
  at the end of the second run the block at \<open>0x1068\<close> is free and is not in the
  registry, whose members are \<open>0x1050\<close>, \<open>0x1098\<close> and the prologue: the copy of the
  reallocate-and-copy path has overwritten the header before \<open>0x1050\<close>, and the
  \<^verbatim>\<open>coalesce\<close> of the old block takes the list entry of \<open>0x1050\<close> for its own.
\<close>

theorem realloc_loses_free_block:
  "mm_init fresh_heap = (0, heap1)
   \<and> run_ops [Malloc 48, Malloc 16, Malloc 8, Free 0x1030] heap1 = Some hfree
   \<and> mm_realloc 0x1068 8 hfree = Some (0x1030, hre)
   \<and> heap_blocks hre = Some [(0x1030, 32, True), (0x1050, 24, False), (0x1068, 24, False),
        (0x1080, 24, True), (0x1098, 1944, False)]
   \<and> registry hre = Some [0x1050, 0x1098, 0x1008]"
  by (simp only: init_fresh run_hfree run_re blocks_hre registry_hre simp_thms)

section \<open>Conservation of block sizes\<close>

text \<open>
  Claim C2 says that the sizes of the blocks between the prologue and the epilogue add up
  to the bytes obtained from \<^verbatim>\<open>mem_sbrk\<close>. After \<^verbatim>\<open>mm_init\<close> the heap has obtained 2096
  bytes; its only block has 2048 bytes, and a walk that starts right after the prologue
  stops at once, at the first epilogue header, which \<^verbatim>\<open>mm_init\<close> leaves in place.
\<close>

theorem block_sizes_counterexample:
  "mm_init fresh_heap = (0, heap1) \<and> heap_blocks heap1 = Some [(0x1030, 2048, False)]
   \<and> walk_blocks heap1 (NEXT_BLKP heap1 (heap_listp heap1)) = Some []
   \<and> unat (mem_brk heap1) - unat (mem_start_brk heap1) = 2096"
proof -
  have "walk_blocks heap1 (NEXT_BLKP heap1 (heap_listp heap1)) = Some []"
    "unat (mem_brk heap1) - unat (mem_start_brk heap1) = 2096"
    by (simp_all cong: let_weak_cong add: heap1_def evals obs_evals)
  then show ?thesis by (simp add: init_fresh blocks_heap1)
qed

text \<open>
  Claim C2, as amended. After \<^verbatim>\<open>mm_init\<close> has reported success on a fresh arena, and after
  any run of allocations (of at most \<open>2^31 - 16\<close> bytes) and deallocations (of allocated
  blocks), the walk of the blocks from the first block to the epilogue ends, and the sizes
  of the blocks and the 48 bytes that \<^verbatim>\<open>mm_init\<close> obtains for the padding, the prologue
  and its first epilogue add up to the bytes obtained from \<^verbatim>\<open>mem_sbrk\<close>.
\<close>

theorem block_sizes_conserved:
  assumes "fresh s0" "mm_init s0 = (0, s1)" "run_ops rs s1 = Some s"
  shows "\<exists>bs. heap_blocks s = Some bs
     \<and> sum_list (map (\<lambda>(p, n, al). unat n) bs) + 48 = unat (mem_brk s) - unat (mem_start_brk s)"
proof -
  from reached_inv[OF assms] obtain bl fl where gd: "good s bl fl" unfolding heap_ok_def by blast
  note o = good_observed[OF gd]
  from gd have h: "hinv s bl fl" unfolding good_def by auto
  have "sum_list (map (\<lambda>(p, n, al). unat n) (blocks_of (first_block s) bl)) = total_size bl"
    by (rule blocks_sum[OF hinvD(7)[OF h]])
  then show ?thesis using o(1,3) by simp
qed

theorem block_sizes_conserved_witness:
  "fresh fresh_heap \<and> mm_init fresh_heap = (0, heap1)
   \<and> run_ops [Malloc 48, Malloc 16, Malloc 8, Free 0x1030] heap1 = Some hfree
   \<and> (\<exists>bs. heap_blocks hfree = Some bs
        \<and> sum_list (map (\<lambda>(p, n, al). unat n) bs) + 48
            = unat (mem_brk hfree) - unat (mem_start_brk hfree))"
  using block_sizes_conserved[OF fresh_heap_fresh init_fresh run_hfree]
    fresh_heap_fresh init_fresh run_hfree by blast

end
